theory Spec2Isabelle
  imports Main "HOL-Library.AList" "HOL-Library.Char_ord" "HOL-Library.List_Lexorder"
begin

section \<open>Data model\<close>

text \<open>
  The in-memory S-expression of the source:
  \<^verbatim>\<open>type JsSexp = JsEmptySexp | JsAtom | JsCons\<close> with
  \<^verbatim>\<open>JsEmptySexp = null\<close>, \<^verbatim>\<open>JsAtom = string\<close> and
  \<^verbatim>\<open>JsCons = [JsSexp, JsSexp]\<close>. A datatype value is finite and acyclic.
  A string is its sequence of bytes (UTF-8), so that \<^verbatim>\<open>Buffer.from(str)\<close> and
  \<^verbatim>\<open>Buffer.toString()\<close> are the identity on it.
\<close>

datatype JsSexp = JsEmptySexp | JsAtom string | JsCons JsSexp JsSexp

text \<open>
  The errors. The source throws plain \<^verbatim>\<open>Error\<close> objects and lets the errors of the git
  library through; each throw site is given the kind the specification names for it.
  \<open>ObjectTypeError\<close> is the library's error for an object of the wrong git type,
  \<open>RuntimeTypeError\<close> stands for a property read on \<^verbatim>\<open>undefined\<close>.
\<close>

datatype error =
    NotFound | InvalidObject | MalformedExpression | NotAProperList | LineNotFound
  | ObjectTypeError | RuntimeTypeError

text \<open>
  The stored expression. \<^verbatim>\<open>GitSexpEmpty\<close> is \<^verbatim>\<open>typeof GitSexpEmptyValue\<close>, an object
  with a \<^verbatim>\<open>type\<close> string and an \<^verbatim>\<open>oid\<close> string: \<open>GitSexpOther\<close> stands for such an
  object whose tag is none of the three known ones, the case the source's final
  \<^verbatim>\<open>else\<close> branches are written for.
\<close>

datatype GitSexpExpression =
    GitSexpAtom string string
  | GitSexpCons GitSexpExpression GitSexpExpression string
  | GitSexpEmpty
  | GitSexpOther string string

definition GitSexpEmptyValue_oid :: string where
  "GitSexpEmptyValue_oid = ''4b825dc642cb6eb9a060e54bf8d69288fbee4904''"

abbreviation GitSexpEmptyValue :: GitSexpExpression where
  "GitSexpEmptyValue \<equiv> GitSexpEmpty"

fun sexp_oid :: "GitSexpExpression \<Rightarrow> string" where
  "sexp_oid (GitSexpAtom v oid) = oid"
| "sexp_oid (GitSexpCons car cdr oid) = oid"
| "sexp_oid GitSexpEmpty = GitSexpEmptyValue_oid"
| "sexp_oid (GitSexpOther ty oid) = oid"

datatype GitSexpExpressionLazy =
    GitSexpAtomLazy string
  | GitSexpConsLazy "GitSexpExpressionLazy option" "GitSexpExpressionLazy option" string
  | GitSexpEmptyLazy

fun lazy_oid :: "GitSexpExpressionLazy \<Rightarrow> string" where
  "lazy_oid (GitSexpAtomLazy oid) = oid"
| "lazy_oid (GitSexpConsLazy car cdr oid) = oid"
| "lazy_oid GitSexpEmptyLazy = GitSexpEmptyValue_oid"

definition HISTORY_BRANCH :: string where
  "HISTORY_BRANCH = ''history''"

subsection \<open>The object store\<close>

text \<open>
  The git repository at \<^verbatim>\<open>GITDIR\<close>, as far as the source uses it through the
  isomorphic-git library: loose objects addressed by the hash of their content, branch
  references, the branch \<^verbatim>\<open>HEAD\<close> points to, and the configuration. The hash function
  \<open>h\<close> and the clock value \<open>now\<close> of a commit are parameters of the operations that
  need them.
\<close>

datatype GitType = BlobT | TreeT | CommitT | TagT

datatype ObjectFormat = content | parsed | deflated | wrapped

record TreeEntry =
  path :: string
  mode :: string
  etype :: GitType
  entry_oid :: string

record CommitObject =
  commit_tree :: string
  commit_parent :: "string list"
  commit_message :: string
  commit_timestamp :: nat

datatype GitObject = Blob string | Tree "TreeEntry list" | Commit CommitObject

record ReadObjectResult =
  ro_type :: GitType
  ro_format :: ObjectFormat
  ro_object :: GitObject

record repo =
  initialized :: bool
  HEAD_branch :: string
  config :: "(string \<times> string) list"
  branches :: "(string \<times> string) list"
  objects :: "string \<Rightarrow> GitObject option"

definition uninitialized_repo :: repo where
  "uninitialized_repo =
     \<lparr>initialized = False, HEAD_branch = [], config = [], branches = [],
      objects = (\<lambda>oid. None)\<rparr>"

text \<open>\<^verbatim>\<open>git.init\<close>: returns at once when the repository exists already.\<close>

definition git_init :: "string \<Rightarrow> repo \<Rightarrow> repo" where
  "git_init defaultBranch r =
     (if initialized r then r
      else r\<lparr>initialized := True, HEAD_branch := defaultBranch\<rparr>)"

definition git_setConfig :: "string \<Rightarrow> string \<Rightarrow> repo \<Rightarrow> repo" where
  "git_setConfig p v r = r\<lparr>config := AList.update p v (config r)\<rparr>"

definition git_listBranches :: "repo \<Rightarrow> string list" where
  "git_listBranches r = map fst (branches r)"

definition git_resolveRef :: "repo \<Rightarrow> string \<Rightarrow> error + string" where
  "git_resolveRef r ref =
     (case map_of (branches r) ref of None \<Rightarrow> Inl LineNotFound | Some oid \<Rightarrow> Inr oid)"

text \<open>
  \<^verbatim>\<open>git.writeBlob\<close> and \<^verbatim>\<open>git.writeTree\<close> store the object under the hash of its
  content and return the hash.
\<close>

definition git_writeBlob :: "(GitObject \<Rightarrow> string) \<Rightarrow> string \<Rightarrow> repo \<Rightarrow> string \<times> repo" where
  "git_writeBlob h b r =
     (h (Blob b), r\<lparr>objects := (objects r)(h (Blob b) \<mapsto> Blob b)\<rparr>)"

definition git_writeTree :: "(GitObject \<Rightarrow> string) \<Rightarrow> TreeEntry list \<Rightarrow> repo \<Rightarrow> string \<times> repo" where
  "git_writeTree h entries r =
     (h (Tree entries), r\<lparr>objects := (objects r)(h (Tree entries) \<mapsto> Tree entries)\<rparr>)"

text \<open>
  \<^verbatim>\<open>git.commit\<close> with an explicit tree and parents and no \<^verbatim>\<open>ref\<close>: writes the commit
  object and moves the branch that \<^verbatim>\<open>HEAD\<close> points to. The commit object carries the
  tree, the parents, the message and the time of the commit; the author is the identity
  of the configuration, the same for every commit, and is left out.
\<close>

definition git_commit ::
  "(GitObject \<Rightarrow> string) \<Rightarrow> nat \<Rightarrow> string \<Rightarrow> string list \<Rightarrow> string \<Rightarrow> repo \<Rightarrow> string \<times> repo" where
  "git_commit h now tr parent msg r =
     (let c = Commit \<lparr>commit_tree = tr, commit_parent = parent, commit_message = msg,
                      commit_timestamp = now\<rparr>
      in (h c, r\<lparr>objects := (objects r)(h c \<mapsto> c),
                  branches := AList.update (HEAD_branch r) (h c) (branches r)\<rparr>))"

definition git_readCommit :: "repo \<Rightarrow> string \<Rightarrow> error + CommitObject" where
  "git_readCommit r oid =
     (case objects r oid of
        None \<Rightarrow> Inl NotFound
      | Some (Commit c) \<Rightarrow> Inr c
      | Some _ \<Rightarrow> Inl ObjectTypeError)"

text \<open>
  \<^verbatim>\<open>git.readObject\<close> with the default format \<^verbatim>\<open>'parsed'\<close>: a blob comes back with
  format \<^verbatim>\<open>'content'\<close>, a tree or a commit with format \<^verbatim>\<open>'parsed'\<close>.
\<close>

fun object_type :: "GitObject \<Rightarrow> GitType" where
  "object_type (Blob b) = BlobT"
| "object_type (Tree entries) = TreeT"
| "object_type (Commit c) = CommitT"

fun object_format :: "GitObject \<Rightarrow> ObjectFormat" where
  "object_format (Blob b) = content"
| "object_format (Tree entries) = parsed"
| "object_format (Commit c) = parsed"

definition git_readObject :: "repo \<Rightarrow> string \<Rightarrow> error + ReadObjectResult" where
  "git_readObject r oid =
     (case objects r oid of
        None \<Rightarrow> Inl NotFound
      | Some obj \<Rightarrow>
          Inr \<lparr>ro_type = object_type obj, ro_format = object_format obj, ro_object = obj\<rparr>)"

text \<open>
  \<^verbatim>\<open>git.readTree\<close>: the entries of a tree; a commit is peeled to its tree; the empty
  tree needs no stored object.
\<close>

definition git_readTree :: "repo \<Rightarrow> string \<Rightarrow> error + TreeEntry list" where
  "git_readTree r oid =
     (if oid = GitSexpEmptyValue_oid then Inr []
      else case objects r oid of
        None \<Rightarrow> Inl NotFound
      | Some (Blob b) \<Rightarrow> Inl ObjectTypeError
      | Some (Tree entries) \<Rightarrow> Inr entries
      | Some (Commit c) \<Rightarrow>
          (if commit_tree c = GitSexpEmptyValue_oid then Inr []
           else case objects r (commit_tree c) of
             None \<Rightarrow> Inl NotFound
           | Some (Tree entries) \<Rightarrow> Inr entries
           | Some _ \<Rightarrow> Inl ObjectTypeError))"

section \<open>List builder\<close>

fun isJsAtom :: "JsSexp \<Rightarrow> bool" where
  "isJsAtom (JsAtom s) = True"
| "isJsAtom _ = False"

fun isJsCons :: "JsSexp \<Rightarrow> bool" where
  "isJsCons (JsCons a d) = True"
| "isJsCons _ = False"

fun isJsEmptySexp :: "JsSexp \<Rightarrow> bool" where
  "isJsEmptySexp JsEmptySexp = True"
| "isJsEmptySexp _ = False"

text \<open>
  \<^verbatim>\<open>strings.reverse().reduce((list, str) => [str, list], null)\<close>.
  \<^verbatim>\<open>Array.prototype.reverse\<close> reverses the array in place, so the function returns the
  list and leaves the caller's array changed: the second component is the content of the
  argument array after the call.
\<close>

definition stringArrayToConsList :: "string list \<Rightarrow> JsSexp \<times> string list" where
  "stringArrayToConsList strings =
     (let reversed = rev strings
      in (foldl (\<lambda>list str. JsCons (JsAtom str) list) JsEmptySexp reversed, reversed))"

fun consListToStringArray :: "JsSexp \<Rightarrow> error + string list" where
  "consListToStringArray JsEmptySexp = Inr []"
| "consListToStringArray (JsAtom s) = Inr [s]"
| "consListToStringArray (JsCons (JsAtom car) cdr) =
     (case consListToStringArray cdr of
        Inl e \<Rightarrow> Inl e
      | Inr rest \<Rightarrow> Inr (car # rest))"
| "consListToStringArray (JsCons a d) = Inl NotAProperList"

section \<open>Sexp codec\<close>

fun gitSexpToJsSexp :: "GitSexpExpression \<Rightarrow> error + JsSexp" where
  "gitSexpToJsSexp GitSexpEmpty = Inr JsEmptySexp"
| "gitSexpToJsSexp (GitSexpAtom v oid) = Inr (JsAtom v)"
| "gitSexpToJsSexp (GitSexpCons car cdr oid) =
     (case gitSexpToJsSexp car of
        Inl e \<Rightarrow> Inl e
      | Inr carStringArray \<Rightarrow>
          (case gitSexpToJsSexp cdr of
             Inl e \<Rightarrow> Inl e
           | Inr cdrStringArray \<Rightarrow> Inr (JsCons carStringArray cdrStringArray)))"
| "gitSexpToJsSexp (GitSexpOther ty oid) = Inl MalformedExpression"

definition writeGitSexpAtom ::
  "(GitObject \<Rightarrow> string) \<Rightarrow> string \<Rightarrow> repo \<Rightarrow> GitSexpExpression \<times> repo" where
  "writeGitSexpAtom h str r =
     (case git_writeBlob h str r of (oid, r') \<Rightarrow> (GitSexpAtom str oid, r'))"

fun getTypeAndMode :: "GitSexpExpression \<Rightarrow> GitType \<times> string" where
  "getTypeAndMode GitSexpEmpty = (TreeT, ''040000'')"
| "getTypeAndMode (GitSexpAtom v oid) = (BlobT, ''100644'')"
| "getTypeAndMode sexp = (TreeT, ''040000'')"

definition cons_tree :: "GitSexpExpression \<Rightarrow> GitSexpExpression \<Rightarrow> TreeEntry list" where
  "cons_tree car cdr =
     (let carTypeAndMode = getTypeAndMode car;
          cdrTypeAndMode = getTypeAndMode cdr
      in [\<lparr>path = ''car'', mode = snd carTypeAndMode, etype = fst carTypeAndMode,
            entry_oid = sexp_oid car\<rparr>,
          \<lparr>path = ''cdr'', mode = snd cdrTypeAndMode, etype = fst cdrTypeAndMode,
            entry_oid = sexp_oid cdr\<rparr>])"

definition writeGitSexpCons ::
  "(GitObject \<Rightarrow> string) \<Rightarrow> GitSexpExpression \<Rightarrow> GitSexpExpression \<Rightarrow> repo
     \<Rightarrow> GitSexpExpression \<times> repo" where
  "writeGitSexpCons h car cdr r =
     (case git_writeTree h (cons_tree car cdr) r of
        (consOid, r') \<Rightarrow> (GitSexpCons car cdr consOid, r'))"

text \<open>
  The final \<^verbatim>\<open>else\<close> of the source (a value that is neither null, a string nor an array
  of length two) has no value of type \<open>JsSexp\<close>.
\<close>

fun jsSexpToGitSexp ::
  "(GitObject \<Rightarrow> string) \<Rightarrow> JsSexp \<Rightarrow> repo \<Rightarrow> GitSexpExpression \<times> repo" where
  "jsSexpToGitSexp h JsEmptySexp r = (GitSexpEmptyValue, r)"
| "jsSexpToGitSexp h (JsAtom s) r = writeGitSexpAtom h s r"
| "jsSexpToGitSexp h (JsCons a d) r =
     (case jsSexpToGitSexp h a r of
        (car, r1) \<Rightarrow>
          (case jsSexpToGitSexp h d r1 of
             (cdr, r2) \<Rightarrow> writeGitSexpCons h car cdr r2))"

definition consStringOntoGitSexpExpression ::
  "(GitObject \<Rightarrow> string) \<Rightarrow> string \<Rightarrow> GitSexpExpression \<Rightarrow> repo \<Rightarrow> GitSexpExpression \<times> repo" where
  "consStringOntoGitSexpExpression h str sexp r =
     (case writeGitSexpAtom h str r of
        (atom, r1) \<Rightarrow> writeGitSexpCons h atom sexp r1)"

section \<open>Lazy tree reader\<close>

definition isValidGitSexpAtomObject :: "ReadObjectResult \<Rightarrow> bool" where
  "isValidGitSexpAtomObject objectInfo =
     (ro_type objectInfo = BlobT \<and>
      (ro_format objectInfo = content \<or> ro_format objectInfo = parsed))"

definition isValidGitSexpConsObject :: "ReadObjectResult \<Rightarrow> TreeEntry list \<Rightarrow> bool" where
  "isValidGitSexpConsObject objectInfo entries =
     (if ro_type objectInfo \<noteq> TreeT \<or>
         (ro_format objectInfo \<noteq> content \<and> ro_format objectInfo \<noteq> parsed)
      then False
      else if length entries \<noteq> 2 then False
      else (let hasCar = list_ex (\<lambda>entry. path entry = ''car'') entries;
                hasCdr = list_ex (\<lambda>entry. path entry = ''cdr'') entries
            in hasCar \<and> hasCdr))"

text \<open>The bytes of a blob, read back as a string.\<close>

fun blob_string :: "GitObject \<Rightarrow> string" where
  "blob_string (Blob b) = b"
| "blob_string obj = []"

definition readGitSexpAtom :: "repo \<Rightarrow> string \<Rightarrow> error + GitSexpExpression" where
  "readGitSexpAtom r oid =
     (case git_readObject r oid of
        Inl e \<Rightarrow> Inl e
      | Inr objectInfo \<Rightarrow>
          (if isValidGitSexpAtomObject objectInfo
           then Inr (GitSexpAtom (blob_string (ro_object objectInfo)) oid)
           else Inl InvalidObject))"

text \<open>
  The entries of the object just read when it is a parsed tree, those of
  \<^verbatim>\<open>git.readTree\<close> otherwise.
\<close>

fun object_entries :: "GitObject \<Rightarrow> TreeEntry list" where
  "object_entries (Tree entries) = entries"
| "object_entries obj = []"

definition lazy_of_entry :: "TreeEntry \<Rightarrow> GitSexpExpressionLazy" where
  "lazy_of_entry entry =
     (if entry_oid entry = GitSexpEmptyValue_oid then GitSexpEmptyLazy
      else if etype entry = BlobT then GitSexpAtomLazy (entry_oid entry)
      else GitSexpConsLazy None None (entry_oid entry))"

definition readGitSexpConsLazy :: "repo \<Rightarrow> string \<Rightarrow> error + GitSexpExpressionLazy" where
  "readGitSexpConsLazy r oid =
     (case git_readObject r oid of
        Inl e \<Rightarrow> Inl e
      | Inr objectInfo \<Rightarrow>
          (case (if ro_format objectInfo = parsed \<and> ro_type objectInfo = TreeT
                 then Inr (object_entries (ro_object objectInfo))
                 else git_readTree r oid) of
             Inl e \<Rightarrow> Inl e
           | Inr entries \<Rightarrow>
               (if \<not> isValidGitSexpConsObject objectInfo entries then Inl InvalidObject
                else
                  (case (find (\<lambda>entry. path entry = ''car'') entries,
                         find (\<lambda>entry. path entry = ''cdr'') entries) of
                     (Some carEntry, Some cdrEntry) \<Rightarrow>
                       Inr (GitSexpConsLazy (Some (lazy_of_entry carEntry))
                              (Some (lazy_of_entry cdrEntry)) oid)
                   | _ \<Rightarrow> Inl RuntimeTypeError))))"

text \<open>\<^verbatim>\<open>try { ... } catch { return false }\<close>.\<close>

definition isGitSexpAtomOid :: "repo \<Rightarrow> string \<Rightarrow> bool" where
  "isGitSexpAtomOid r oid =
     (case git_readObject r oid of
        Inl e \<Rightarrow> False
      | Inr objectInfo \<Rightarrow> isValidGitSexpAtomObject objectInfo)"

text \<open>The \<^verbatim>\<open>car\<close> and \<^verbatim>\<open>cdr\<close> fields of a lazy cons; \<^verbatim>\<open>undefined\<close> is \<open>None\<close>.\<close>

fun lazy_car :: "GitSexpExpressionLazy \<Rightarrow> GitSexpExpressionLazy option" where
  "lazy_car (GitSexpConsLazy car cdr oid) = car"
| "lazy_car lz = None"

fun lazy_cdr :: "GitSexpExpressionLazy \<Rightarrow> GitSexpExpressionLazy option" where
  "lazy_cdr (GitSexpConsLazy car cdr oid) = cdr"
| "lazy_cdr lz = None"

text \<open>
  The recursive read. The store may hold a cycle, on which the source recurses for ever:
  the result \<open>None\<close> is a read that does not return, \<open>Some (Inl e)\<close> one that throws,
  \<open>Some (Inr sexp)\<close> one that returns \<open>sexp\<close>. The car is read before the cdr.
\<close>

partial_function (option) readGitSexpExpression ::
  "repo \<Rightarrow> string \<Rightarrow> (error + GitSexpExpression) option" where
  "readGitSexpExpression r oid =
     (if oid = GitSexpEmptyValue_oid then Some (Inr GitSexpEmpty)
      else if isGitSexpAtomOid r oid then Some (readGitSexpAtom r oid)
      else
        (case readGitSexpConsLazy r oid of
           Inl e \<Rightarrow> Some (Inl e)
         | Inr consLazy \<Rightarrow>
             Option.bind
               (case lazy_car consLazy of
                  Some c \<Rightarrow> readGitSexpExpression r (lazy_oid c)
                | None \<Rightarrow> Some (Inr GitSexpEmptyValue))
               (\<lambda>carResult.
                  case carResult of
                    Inl e \<Rightarrow> Some (Inl e)
                  | Inr car \<Rightarrow>
                      Option.bind
                        (case lazy_cdr consLazy of
                           Some c \<Rightarrow> readGitSexpExpression r (lazy_oid c)
                         | None \<Rightarrow> Some (Inr GitSexpEmptyValue))
                        (\<lambda>cdrResult.
                           case cdrResult of
                             Inl e \<Rightarrow> Some (Inl e)
                           | Inr cdr \<Rightarrow> Some (Inr (GitSexpCons car cdr oid))))))"

section \<open>History manager\<close>

definition isRepoEmpty :: "repo \<Rightarrow> bool" where
  "isRepoEmpty r = (length (git_listBranches r) = 0)"

definition setupGitSexpRepo :: "(GitObject \<Rightarrow> string) \<Rightarrow> nat \<Rightarrow> repo \<Rightarrow> repo" where
  "setupGitSexpRepo h now r =
     (let r1 = git_init HISTORY_BRANCH r;
          r2 = git_setConfig ''gc.auto'' ''0'' r1;
          r3 = git_setConfig ''user.name'' ''GitSexp'' r2;
          r4 = git_setConfig ''user.email'' ''git-sexp@localhost'' r3
      in if isRepoEmpty r4
         then snd (git_commit h now GitSexpEmptyValue_oid [] ''Initial commit'' r4)
         else r4)"

definition updateBranchHead ::
  "(GitObject \<Rightarrow> string) \<Rightarrow> nat \<Rightarrow> GitSexpExpression \<Rightarrow> repo \<Rightarrow> error + repo" where
  "updateBranchHead h now sexpList r =
     (case git_resolveRef r HISTORY_BRANCH of
        Inl e \<Rightarrow> Inl e
      | Inr headCommitOid \<Rightarrow>
          Inr (snd (git_commit h now (sexp_oid sexpList) [headCommitOid]
                      ''Append messages'' r)))"

definition loadHistoryGitSexpList :: "repo \<Rightarrow> (error + GitSexpExpression) option" where
  "loadHistoryGitSexpList r =
     (case git_resolveRef r HISTORY_BRANCH of
        Inl e \<Rightarrow> Some (Inl e)
      | Inr headCommitOid \<Rightarrow>
          (case git_readCommit r headCommitOid of
             Inl e \<Rightarrow> Some (Inl e)
           | Inr headCommit \<Rightarrow> readGitSexpExpression r (commit_tree headCommit)))"

section \<open>Notions of the specification\<close>

text \<open>
  The expression that encoding a value returns: it depends on the value and on the hash
  function only, not on what the store holds.
\<close>

fun stored_sexp :: "(GitObject \<Rightarrow> string) \<Rightarrow> JsSexp \<Rightarrow> GitSexpExpression" where
  "stored_sexp h JsEmptySexp = GitSexpEmpty"
| "stored_sexp h (JsAtom s) = GitSexpAtom s (h (Blob s))"
| "stored_sexp h (JsCons a d) =
     GitSexpCons (stored_sexp h a) (stored_sexp h d)
       (h (Tree (cons_tree (stored_sexp h a) (stored_sexp h d))))"

text \<open>
  A chain of cons cells with atom cars \<open>xs\<close> that ends in \<open>t\<close>; a proper list is a chain
  that ends in the empty expression (every car an Atom, the chain terminated by Empty).
  \<open>from_sequence\<close> and \<open>to_sequence\<close> are the specification's operations, composed of
  the source's functions.
\<close>

definition cons_chain :: "string list \<Rightarrow> JsSexp \<Rightarrow> JsSexp" where
  "cons_chain xs t = foldr (\<lambda>s l. JsCons (JsAtom s) l) xs t"

fun proper_list :: "JsSexp \<Rightarrow> bool" where
  "proper_list JsEmptySexp = True"
| "proper_list (JsCons (JsAtom s) d) = proper_list d"
| "proper_list v = False"

definition from_sequence :: "(GitObject \<Rightarrow> string) \<Rightarrow> string list \<Rightarrow> repo \<Rightarrow> GitSexpExpression \<times> repo" where
  "from_sequence h items r = jsSexpToGitSexp h (fst (stringArrayToConsList items)) r"

definition to_sequence :: "GitSexpExpression \<Rightarrow> error + string list" where
  "to_sequence sexp =
     (case gitSexpToJsSexp sexp of Inl e \<Rightarrow> Inl e | Inr v \<Rightarrow> consListToStringArray v)"

text \<open>
  Content hashing as the specification takes it: the hash is injective, and the id of the
  empty expression is the hash of the empty tree. \<open>toy_hash\<close> is one such function
  (a length-prefixed serialisation of the object), which shows that the assumption can be
  met.
\<close>

definition hash_ok :: "(GitObject \<Rightarrow> string) \<Rightarrow> bool" where
  "hash_ok h = (inj h \<and> h (Tree []) = GitSexpEmptyValue_oid)"

definition enc_nat :: "nat \<Rightarrow> string" where
  "enc_nat n = replicate n (CHR ''1'') @ [CHR ''0'']"

definition enc_str :: "string \<Rightarrow> string" where
  "enc_str s = enc_nat (length s) @ s"

definition enc_strs :: "string list \<Rightarrow> string" where
  "enc_strs ss = enc_nat (length ss) @ concat (map enc_str ss)"

fun type_name :: "GitType \<Rightarrow> string" where
  "type_name BlobT = ''blob''"
| "type_name TreeT = ''tree''"
| "type_name CommitT = ''commit''"
| "type_name TagT = ''tag''"

definition entry_fields :: "TreeEntry \<Rightarrow> string list" where
  "entry_fields e = [path e, mode e, type_name (etype e), entry_oid e]"

fun object_fields :: "GitObject \<Rightarrow> string list" where
  "object_fields (Blob b) = [''blob'', b]"
| "object_fields (Tree entries) = ''tree'' # concat (map entry_fields entries)"
| "object_fields (Commit c) =
     [''commit'', commit_tree c, commit_message c, enc_nat (commit_timestamp c)]
       @ commit_parent c"

definition toy_hash :: "GitObject \<Rightarrow> string" where
  "toy_hash obj =
     (if obj = Tree [] then GitSexpEmptyValue_oid else CHR ''#'' # enc_strs (object_fields obj))"

text \<open>
  A store is consistent when every object sits under the hash of its content.
  \<open>stored h r v\<close> says that the store holds the objects of the encoding of \<open>v\<close>.
\<close>

definition wf_store :: "(GitObject \<Rightarrow> string) \<Rightarrow> repo \<Rightarrow> bool" where
  "wf_store h r = (\<forall>oid obj. objects r oid = Some obj \<longrightarrow> h obj = oid)"

fun stored :: "(GitObject \<Rightarrow> string) \<Rightarrow> repo \<Rightarrow> JsSexp \<Rightarrow> bool" where
  "stored h r JsEmptySexp = True"
| "stored h r (JsAtom s) = (objects r (h (Blob s)) = Some (Blob s))"
| "stored h r (JsCons a d) =
     (stored h r a \<and> stored h r d \<and>
      objects r (h (Tree (cons_tree (stored_sexp h a) (stored_sexp h d)))) =
        Some (Tree (cons_tree (stored_sexp h a) (stored_sexp h d))))"

text \<open>
  The history: the chain of records from a tip back to the bootstrap record, each record
  with exactly one predecessor but the last, which has none; the snapshot a record refers
  to; the ids of all records in the store; the record that \<open>setupGitSexpRepo\<close> creates.
\<close>

fun record_chain :: "repo \<Rightarrow> string list \<Rightarrow> bool" where
  "record_chain r [] = False"
| "record_chain r [oid] =
     (case git_readCommit r oid of Inl e \<Rightarrow> False | Inr c \<Rightarrow> commit_parent c = [])"
| "record_chain r (oid # p # rest) =
     (case git_readCommit r oid of
        Inl e \<Rightarrow> False
      | Inr c \<Rightarrow> commit_parent c = [p] \<and> record_chain r (p # rest))"

definition record_snapshot :: "repo \<Rightarrow> string \<Rightarrow> string option" where
  "record_snapshot r oid =
     (case git_readCommit r oid of Inl e \<Rightarrow> None | Inr c \<Rightarrow> Some (commit_tree c))"

definition record_ids :: "repo \<Rightarrow> string set" where
  "record_ids r = {oid. \<exists>c. objects r oid = Some (Commit c)}"

definition bootstrap_record :: "nat \<Rightarrow> GitObject" where
  "bootstrap_record now =
     Commit \<lparr>commit_tree = GitSexpEmptyValue_oid, commit_parent = [],
             commit_message = ''Initial commit'', commit_timestamp = now\<rparr>"

text \<open>
  \<open>extends_store h r r'\<close>: the repository \<open>r'\<close> is \<open>r\<close> with content-addressed blobs and
  trees added; references, configuration and history records are those of \<open>r\<close>.
\<close>

definition extends_store :: "(GitObject \<Rightarrow> string) \<Rightarrow> repo \<Rightarrow> repo \<Rightarrow> bool" where
  "extends_store h r r' =
     (initialized r' = initialized r \<and> HEAD_branch r' = HEAD_branch r \<and>
      config r' = config r \<and> branches r' = branches r \<and>
      objects r \<subseteq>\<^sub>m objects r' \<and> wf_store h r' \<and> record_ids r' = record_ids r)"






text \<open>
  A run of sequential appends: each step encodes a value, which stores its list, and
  appends the list at the given clock value. \<open>snapshot_ids\<close> are the root ids of the
  lists of a run, \<open>history_inv\<close> is the invariant of the history line: the tip starts the
  chain of all records of the store, without repetition.
\<close>

fun append_sequence ::
  "(GitObject \<Rightarrow> string) \<Rightarrow> (nat \<times> JsSexp) list \<Rightarrow> repo \<Rightarrow> error + repo" where
  "append_sequence h [] r = Inr r"
| "append_sequence h (step # steps) r =
     (case jsSexpToGitSexp h (snd step) r of
        (sexpList, r1) \<Rightarrow>
          (case updateBranchHead h (fst step) sexpList r1 of
             Inl e \<Rightarrow> Inl e
           | Inr r2 \<Rightarrow> append_sequence h steps r2))"

definition history_inv :: "(GitObject \<Rightarrow> string) \<Rightarrow> repo \<Rightarrow> string list \<Rightarrow> bool" where
  "history_inv h r cs =
     (wf_store h r \<and> HEAD_branch r = HISTORY_BRANCH \<and> cs \<noteq> [] \<and>
      git_resolveRef r HISTORY_BRANCH = Inr (hd cs) \<and>
      record_chain r cs \<and> distinct cs \<and> record_ids r = set cs)"

definition snapshot_ids :: "(GitObject \<Rightarrow> string) \<Rightarrow> (nat \<times> JsSexp) list \<Rightarrow> string list" where
  "snapshot_ids h steps = map (\<lambda>step. sexp_oid (stored_sexp h (snd step))) steps"

text \<open>
  The object graph of the store: the children of a tree are the ids its entries refer
  to. The graph reachable from an id is a finite directed acyclic graph when the set of
  reachable ids is finite and none of them lies on a cycle.
\<close>

definition store_children :: "repo \<Rightarrow> string \<Rightarrow> string list" where
  "store_children r oid =
     (case objects r oid of Some (Tree entries) \<Rightarrow> map entry_oid entries | _ \<Rightarrow> [])"

definition store_edges :: "repo \<Rightarrow> (string \<times> string) set" where
  "store_edges r = {(p, c). c \<in> set (store_children r p)}"

definition reachable :: "repo \<Rightarrow> string \<Rightarrow> string set" where
  "reachable r oid = (store_edges r)\<^sup>* `` {oid}"

definition finite_dag :: "repo \<Rightarrow> string \<Rightarrow> bool" where
  "finite_dag r oid =
     (finite (reachable r oid) \<and> (\<forall>x \<in> reachable r oid. (x, x) \<notin> (store_edges r)\<^sup>+))"

text \<open>A store with the cons of the atom x and the empty expression.\<close>

definition cons_repo :: repo where
  "cons_repo = uninitialized_repo\<lparr>objects :=
     (\<lambda>oid. None)(''c0'' \<mapsto> Tree [\<lparr>path = ''car'', mode = ''100644'', etype = BlobT, entry_oid = ''a0''\<rparr>,
          \<lparr>path = ''cdr'', mode = ''040000'', etype = TreeT, entry_oid = GitSexpEmptyValue_oid\<rparr>],
       ''a0'' \<mapsto> Blob ''x'')\<rparr>"

section \<open>The codec\<close>

lemma fst_jsSexpToGitSexp: "fst (jsSexpToGitSexp h v r) = stored_sexp h v"
proof (induction v arbitrary: r)
  case JsEmptySexp
  show ?case by simp
next
  case (JsAtom s)
  show ?case by (simp add: writeGitSexpAtom_def git_writeBlob_def)
next
  case (JsCons a d)
  obtain car r1 where 1: "jsSexpToGitSexp h a r = (car, r1)" by fastforce
  obtain cdr r2 where 2: "jsSexpToGitSexp h d r1 = (cdr, r2)" by fastforce
  from JsCons.IH(1) [of r] 1 have car: "car = stored_sexp h a" by simp
  from JsCons.IH(2) [of r1] 2 have cdr: "cdr = stored_sexp h d" by simp
  show ?case
    by (simp add: 1 2 car cdr writeGitSexpCons_def git_writeTree_def)
qed

lemma gitSexpToJsSexp_stored_sexp: "gitSexpToJsSexp (stored_sexp h v) = Inr v"
  by (induction v) auto

text \<open>
  C1. Decoding the result of encoding a value gives the value back, for every value
  (null, a string or a nested pair), every hash function and every store.
\<close>

theorem decode_encode: "gitSexpToJsSexp (fst (jsSexpToGitSexp h v r)) = Inr v"
  by (simp add: fst_jsSexpToGitSexp gitSexpToJsSexp_stored_sexp)

theorem decode_encode_witness:
  "gitSexpToJsSexp (fst (jsSexpToGitSexp toy_hash
      (JsCons (JsAtom ''a'') (JsCons (JsAtom ''b'') (JsCons (JsAtom ''c'')
         (JsCons (JsAtom ''d'') JsEmptySexp)))) uninitialized_repo)) =
   Inr (JsCons (JsAtom ''a'') (JsCons (JsAtom ''b'') (JsCons (JsAtom ''c'')
         (JsCons (JsAtom ''d'') JsEmptySexp))))"
  by (rule decode_encode)

section \<open>Content hashing\<close>

lemma enc_nat_inj: "enc_nat m @ x = enc_nat n @ y \<Longrightarrow> m = n \<and> x = y"
proof (induction m arbitrary: n)
  case 0
  then show ?case by (cases n) (auto simp: enc_nat_def)
next
  case (Suc m)
  then show ?case by (cases n) (auto simp: enc_nat_def)
qed

lemma enc_str_inj: "enc_str a @ x = enc_str b @ y \<Longrightarrow> a = b \<and> x = y"
proof -
  assume eq: "enc_str a @ x = enc_str b @ y"
  then have "enc_nat (length a) @ (a @ x) = enc_nat (length b) @ (b @ y)"
    by (simp add: enc_str_def)
  from enc_nat_inj [OF this] show ?thesis by auto
qed

lemma concat_enc_str_inj:
  "length ss = length ts \<Longrightarrow> concat (map enc_str ss) = concat (map enc_str ts) \<Longrightarrow> ss = ts"
proof (induction ss ts rule: list_induct2)
  case Nil
  show ?case by simp
next
  case (Cons s ss t ts)
  from Cons.prems have "enc_str s @ concat (map enc_str ss) = enc_str t @ concat (map enc_str ts)"
    by simp
  from enc_str_inj [OF this] Cons.IH show ?case by simp
qed

lemma enc_strs_inj: "enc_strs ss = enc_strs ts \<Longrightarrow> ss = ts"
proof -
  assume "enc_strs ss = enc_strs ts"
  then have "enc_nat (length ss) @ concat (map enc_str ss) = enc_nat (length ts) @ concat (map enc_str ts)"
    by (simp add: enc_strs_def)
  from enc_nat_inj [OF this] show ?thesis by (simp add: concat_enc_str_inj)
qed

lemma type_name_inj: "type_name a = type_name b \<Longrightarrow> a = b"
  by (cases a; cases b) simp_all

lemma entry_fields_app:
  "entry_fields e @ xs = entry_fields f @ ys \<Longrightarrow> e = f \<and> xs = ys"
  by (auto simp: entry_fields_def dest: type_name_inj)

lemma entry_fields_not_Nil: "entry_fields e @ xs \<noteq> []"
  by (simp add: entry_fields_def)

lemma entry_fields_inj:
  "concat (map entry_fields es) = concat (map entry_fields fs) \<Longrightarrow> es = fs"
proof (induction es arbitrary: fs)
  case Nil
  then show ?case using entry_fields_not_Nil by (cases fs) auto
next
  case (Cons e es)
  show ?case
  proof (cases fs)
    case Nil
    with Cons.prems show ?thesis using entry_fields_not_Nil by auto
  next
    case (Cons f fs')
    with Cons.prems have "entry_fields e @ concat (map entry_fields es) =
        entry_fields f @ concat (map entry_fields fs')"
      by simp
    from entry_fields_app [OF this] Cons.IH Cons show ?thesis by simp
  qed
qed

lemma enc_nat_inj': "enc_nat m = enc_nat n \<Longrightarrow> m = n"
  using enc_nat_inj [of m "[]" n "[]"] by simp

lemma object_fields_inj: "object_fields a = object_fields b \<Longrightarrow> a = b"
  by (cases a; cases b) (auto dest: entry_fields_inj enc_nat_inj')

lemma toy_hash_ok: "hash_ok toy_hash"
proof -
  have "inj toy_hash"
  proof (rule injI)
    fix a b assume eq: "toy_hash a = toy_hash b"
    show "a = b"
    proof (cases "a = Tree [] \<or> b = Tree []")
      case True
      with eq show ?thesis
        by (auto simp: toy_hash_def GitSexpEmptyValue_oid_def split: if_splits)
    next
      case False
      with eq have "enc_strs (object_fields a) = enc_strs (object_fields b)"
        by (simp add: toy_hash_def)
      then show ?thesis by (blast dest: enc_strs_inj object_fields_inj)
    qed
  qed
  then show ?thesis by (simp add: hash_ok_def toy_hash_def)
qed

lemma hash_inj: "hash_ok h \<Longrightarrow> h a = h b \<Longrightarrow> a = b"
  by (auto simp: hash_ok_def dest: injD)

lemma hash_not_empty:
  "hash_ok h \<Longrightarrow> obj \<noteq> Tree [] \<Longrightarrow> h obj \<noteq> GitSexpEmptyValue_oid"
  "hash_ok h \<Longrightarrow> obj \<noteq> Tree [] \<Longrightarrow> GitSexpEmptyValue_oid \<noteq> h obj"
  by (metis hash_ok_def injD)+

lemma cons_tree_eq:
  "cons_tree a d = cons_tree a' d' \<Longrightarrow> sexp_oid a = sexp_oid a' \<and> sexp_oid d = sexp_oid d'"
  by (simp add: cons_tree_def Let_def)

lemma cons_tree_not_Nil: "cons_tree a d \<noteq> []"
  by (simp add: cons_tree_def Let_def)

lemma stored_sexp_oid_inj:
  "hash_ok h \<Longrightarrow> sexp_oid (stored_sexp h v1) = sexp_oid (stored_sexp h v2) \<Longrightarrow> v1 = v2"
proof (induction v1 arbitrary: v2)
  case JsEmptySexp
  then show ?case
    using hash_not_empty(2) [of h] by (cases v2) (auto simp: cons_tree_not_Nil)
next
  case (JsAtom s)
  then show ?case
    using hash_not_empty(1) [of h] by (cases v2) (auto dest: hash_inj simp: cons_tree_not_Nil)
next
  case (JsCons a d)
  show ?case
  proof (cases v2)
    case JsEmptySexp
    with JsCons.prems show ?thesis
      using hash_not_empty(1) [of h "Tree (cons_tree (stored_sexp h a) (stored_sexp h d))"]
      by (simp add: cons_tree_not_Nil)
  next
    case (JsAtom s)
    with JsCons.prems show ?thesis by (auto dest: hash_inj)
  next
    case (JsCons a' d')
    with JsCons.prems have "cons_tree (stored_sexp h a) (stored_sexp h d) =
        cons_tree (stored_sexp h a') (stored_sexp h d')"
      by (auto dest: hash_inj)
    from cons_tree_eq [OF this] JsCons.IH JsCons.prems(1) JsCons show ?thesis by blast
  qed
qed



section \<open>The list builder\<close>

lemma cons_chain_simps [simp]:
  "cons_chain [] t = t"
  "cons_chain (x # xs) t = JsCons (JsAtom x) (cons_chain xs t)"
  by (simp_all add: cons_chain_def)

lemma fst_stringArrayToConsList: "fst (stringArrayToConsList xs) = cons_chain xs JsEmptySexp"
  by (simp add: stringArrayToConsList_def cons_chain_def foldr_conv_foldl Let_def)

lemma consListToStringArray_chain_empty:
  "consListToStringArray (cons_chain xs JsEmptySexp) = Inr xs"
  by (induction xs) auto

lemma consListToStringArray_chain_atom:
  "consListToStringArray (cons_chain xs (JsAtom t)) = Inr (xs @ [t])"
  by (induction xs) auto

lemma consListToStringArray_chain_bad:
  "\<not> isJsAtom c \<Longrightarrow> consListToStringArray (cons_chain xs (JsCons c d)) = Inl NotAProperList"
  by (induction xs) (cases c; auto)+

lemma spine_cases:
  "(\<exists>xs. v = cons_chain xs JsEmptySexp) \<or> (\<exists>xs t. v = cons_chain xs (JsAtom t)) \<or>
   (\<exists>xs c d. v = cons_chain xs (JsCons c d) \<and> \<not> isJsAtom c)"
proof (induction v)
  case JsEmptySexp
  have "JsEmptySexp = cons_chain [] JsEmptySexp" by simp
  then show ?case by blast
next
  case (JsAtom s)
  have "JsAtom s = cons_chain [] (JsAtom s)" by simp
  then show ?case by blast
next
  case (JsCons a cdr)
  show ?case
  proof (cases "isJsAtom a")
    case False
    have "JsCons a cdr = cons_chain [] (JsCons a cdr)" by simp
    with False show ?thesis by blast
  next
    case True
    then obtain car where a: "a = JsAtom car" by (cases a) simp_all
    from JsCons.IH(2) consider
        (empty) xs where "cdr = cons_chain xs JsEmptySexp"
      | (atom) xs t where "cdr = cons_chain xs (JsAtom t)"
      | (bad) xs c d where "cdr = cons_chain xs (JsCons c d)" "\<not> isJsAtom c"
      by blast
    then show ?thesis
    proof cases
      case empty
      then have "JsCons a cdr = cons_chain (car # xs) JsEmptySexp" by (simp add: a)
      then show ?thesis by blast
    next
      case atom
      then have "JsCons a cdr = cons_chain (car # xs) (JsAtom t)" by (simp add: a)
      then show ?thesis by blast
    next
      case bad
      then have "JsCons a cdr = cons_chain (car # xs) (JsCons c d)" by (simp add: a)
      with bad show ?thesis by blast
    qed
  qed
qed

lemma proper_list_chain: "proper_list v = (\<exists>xs. v = cons_chain xs JsEmptySexp)"
proof
  show "proper_list v \<Longrightarrow> \<exists>xs. v = cons_chain xs JsEmptySexp"
  proof (induction v rule: proper_list.induct)
    case 1
    have "JsEmptySexp = cons_chain [] JsEmptySexp" by simp
    then show ?case by blast
  next
    case (2 s d)
    then obtain xs where "d = cons_chain xs JsEmptySexp" by auto
    then have "JsCons (JsAtom s) d = cons_chain (s # xs) JsEmptySexp" by simp
    then show ?case by blast
  qed simp_all
next
  have "proper_list (cons_chain xs JsEmptySexp)" for xs
    by (induction xs) simp_all
  then show "\<exists>xs. v = cons_chain xs JsEmptySexp \<Longrightarrow> proper_list v" by auto
qed

lemma cons_chain_inj: "cons_chain xs JsEmptySexp = cons_chain ys JsEmptySexp \<Longrightarrow> xs = ys"
proof -
  assume "cons_chain xs JsEmptySexp = cons_chain ys JsEmptySexp"
  then have "consListToStringArray (cons_chain xs JsEmptySexp) =
      consListToStringArray (cons_chain ys JsEmptySexp)"
    by simp
  then show ?thesis by (simp add: consListToStringArray_chain_empty)
qed

text \<open>
  C5, as the specification states it, fails: a chain that ends in an Atom instead of
  Empty is not a proper list, and the source's \<^verbatim>\<open>isJsAtom\<close> branch accepts it.
\<close>

theorem to_sequence_counterexample:
  "consListToStringArray (JsCons (JsAtom ''a'') (JsAtom ''b'')) = Inr [''a'', ''b''] \<and>
   \<not> proper_list (JsCons (JsAtom ''a'') (JsAtom ''b''))"
  by simp

text \<open>
  C5, amended. \<open>consListToStringArray\<close> returns the atom payloads in order on a proper
  list; it also succeeds on a chain that ends in an Atom (a bare Atom included), whose
  payload comes last; it fails with \<open>NotAProperList\<close> exactly when the walk reaches a cons
  whose car is not an Atom, and it succeeds on no other value than the two kinds of chain.
\<close>

theorem to_sequence_characterised:
  "consListToStringArray (cons_chain xs JsEmptySexp) = Inr xs \<and>
   consListToStringArray (cons_chain xs (JsAtom t)) = Inr (xs @ [t]) \<and>
   (consListToStringArray v = Inl NotAProperList) =
     (\<exists>ys c d. v = cons_chain ys (JsCons c d) \<and> \<not> isJsAtom c) \<and>
   (\<exists>zs. consListToStringArray v = Inr zs) =
     (\<exists>ys. v = cons_chain ys JsEmptySexp \<or> (\<exists>s. v = cons_chain ys (JsAtom s))) \<and>
   proper_list (cons_chain xs JsEmptySexp) \<and> \<not> proper_list (cons_chain xs (JsAtom t))"
proof -
  have 5: "proper_list (cons_chain xs JsEmptySexp)"
    by (induction xs) simp_all
  have 6: "\<not> proper_list (cons_chain xs (JsAtom t))"
    by (induction xs) simp_all
  have 3: "(consListToStringArray v = Inl NotAProperList) =
     (\<exists>ys c d. v = cons_chain ys (JsCons c d) \<and> \<not> isJsAtom c)"
    using spine_cases [of v]
    by (auto simp: consListToStringArray_chain_empty consListToStringArray_chain_atom
        consListToStringArray_chain_bad)
  have 4: "(\<exists>zs. consListToStringArray v = Inr zs) =
     (\<exists>ys. v = cons_chain ys JsEmptySexp \<or> (\<exists>s. v = cons_chain ys (JsAtom s)))"
    using spine_cases [of v]
    by (auto simp: consListToStringArray_chain_empty consListToStringArray_chain_atom
        consListToStringArray_chain_bad)
  show ?thesis
    using 3 4 5 6
    by (simp add: consListToStringArray_chain_empty consListToStringArray_chain_atom)
qed




theorem to_sequence_characterised_witness:
  "consListToStringArray (cons_chain [''Hello'', ''World''] JsEmptySexp) =
     Inr [''Hello'', ''World''] \<and>
   consListToStringArray (cons_chain [''Hello''] (JsAtom ''World'')) =
     Inr [''Hello'', ''World''] \<and>
   consListToStringArray (JsCons (JsCons (JsAtom ''x'') JsEmptySexp) JsEmptySexp) =
     Inl NotAProperList"
proof -
  have shape: "JsCons (JsCons (JsAtom ''x'') JsEmptySexp) JsEmptySexp =
      cons_chain [] (JsCons (JsCons (JsAtom ''x'') JsEmptySexp) JsEmptySexp)"
    by simp
  have bad: "\<exists>ys c d. JsCons (JsCons (JsAtom ''x'') JsEmptySexp) JsEmptySexp =
      cons_chain ys (JsCons c d) \<and> \<not> isJsAtom c"
    by (rule exI [of _ "[]"], rule exI [of _ "JsCons (JsAtom ''x'') JsEmptySexp"],
        rule exI [of _ JsEmptySexp]) simp
  from to_sequence_characterised [of "[''Hello'', ''World'']" "''World''"
      "JsCons (JsCons (JsAtom ''x'') JsEmptySexp) JsEmptySexp"]
    to_sequence_characterised [of "[''Hello'']" "''World''" JsEmptySexp] bad
  show ?thesis by simp
qed

text \<open>
  C8. Building the list of a sequence and flattening it gives the sequence back, and a
  second run on the same input gives the same root id as the first, in the store the first
  run left as in any other store.
\<close>

theorem from_sequence_deterministic:
  "to_sequence (fst (from_sequence h items r)) = Inr items \<and>
   sexp_oid (fst (from_sequence h items (snd (from_sequence h items r)))) =
     sexp_oid (fst (from_sequence h items r)) \<and>
   sexp_oid (fst (from_sequence h items r')) = sexp_oid (fst (from_sequence h items r))"
  by (simp add: to_sequence_def from_sequence_def fst_jsSexpToGitSexp
      gitSexpToJsSexp_stored_sexp fst_stringArrayToConsList consListToStringArray_chain_empty)

theorem from_sequence_deterministic_witness:
  "to_sequence (fst (from_sequence toy_hash [''Hello'', ''World'', ''Foo'']
      uninitialized_repo)) = Inr [''Hello'', ''World'', ''Foo''] \<and>
   sexp_oid (fst (from_sequence toy_hash [''Hello'', ''World'', ''Foo'']
      (snd (from_sequence toy_hash [''Hello'', ''World'', ''Foo''] uninitialized_repo)))) =
   sexp_oid (fst (from_sequence toy_hash [''Hello'', ''World'', ''Foo'']
      uninitialized_repo))"
  using from_sequence_deterministic [of toy_hash "[''Hello'', ''World'', ''Foo'']"
      uninitialized_repo uninitialized_repo]
  by simp

text \<open>
  C10, as stated, fails: the array is reversed in place, but the second call does not
  always receive a different input. On a one-element array the reversed array is the
  array itself.
\<close>

theorem stringArrayToConsList_counterexample:
  "\<not> (snd (stringArrayToConsList [''x'']) \<noteq> [''x''])"
  by (simp add: stringArrayToConsList_def)

text \<open>
  C10, amended. After the call the caller's array holds the elements in reversed order;
  a second call on that array receives the reversed array and builds the list of the
  reversed sequence; its input, and its result, differ from those of the first call
  exactly when the array is not equal to its own reverse.
\<close>

theorem stringArrayToConsList_mutates:
  "snd (stringArrayToConsList a) = rev a \<and>
   fst (stringArrayToConsList a) = cons_chain a JsEmptySexp \<and>
   fst (stringArrayToConsList (snd (stringArrayToConsList a))) =
     cons_chain (rev a) JsEmptySexp \<and>
   (snd (stringArrayToConsList a) = a) = (rev a = a) \<and>
   (fst (stringArrayToConsList (snd (stringArrayToConsList a))) =
      fst (stringArrayToConsList a)) = (rev a = a)"
proof -
  have snd: "snd (stringArrayToConsList a) = rev a"
    by (simp add: stringArrayToConsList_def Let_def)
  have "(cons_chain (rev a) JsEmptySexp = cons_chain a JsEmptySexp) = (rev a = a)"
    using cons_chain_inj [of "rev a" a] by auto
  with snd show ?thesis by (simp add: fst_stringArrayToConsList)
qed

theorem stringArrayToConsList_mutates_witness:
  "snd (stringArrayToConsList [''Hello'', ''World'', ''Foo'']) =
     [''Foo'', ''World'', ''Hello''] \<and>
   fst (stringArrayToConsList (snd (stringArrayToConsList [''Hello'', ''World'', ''Foo'']))) =
     cons_chain [''Foo'', ''World'', ''Hello''] JsEmptySexp \<and>
   fst (stringArrayToConsList (snd (stringArrayToConsList [''Hello'', ''World'', ''Foo''])))
     \<noteq> fst (stringArrayToConsList [''Hello'', ''World'', ''Foo''])"
  using stringArrayToConsList_mutates [of "[''Hello'', ''World'', ''Foo'']"]
  by (simp add: stringArrayToConsList_def)

section \<open>The history manager: initialisation\<close>

lemma setup_config_fixed:
  assumes "map_of c ''gc.auto'' = Some ''0''" "map_of c ''user.name'' = Some ''GitSexp''"
    "map_of c ''user.email'' = Some ''git-sexp@localhost''"
  shows "AList.update ''user.email'' ''git-sexp@localhost''
           (AList.update ''user.name'' ''GitSexp'' (AList.update ''gc.auto'' ''0'' c)) = c"
  using assms by (simp add: AList.update_triv)

lemma setup_config_map:
  "map_of (AList.update ''user.email'' ''git-sexp@localhost''
           (AList.update ''user.name'' ''GitSexp'' (AList.update ''gc.auto'' ''0'' c))) ''gc.auto'' = Some ''0''"
  "map_of (AList.update ''user.email'' ''git-sexp@localhost''
           (AList.update ''user.name'' ''GitSexp'' (AList.update ''gc.auto'' ''0'' c))) ''user.name'' = Some ''GitSexp''"
  "map_of (AList.update ''user.email'' ''git-sexp@localhost''
           (AList.update ''user.name'' ''GitSexp'' (AList.update ''gc.auto'' ''0'' c))) ''user.email'' = Some ''git-sexp@localhost''"
  by (simp_all add: AList.update_conv')

lemma setup_idem: "setupGitSexpRepo h now' (setupGitSexpRepo h now r) = setupGitSexpRepo h now r"
proof -
  let ?c = "AList.update ''user.email'' ''git-sexp@localhost''
           (AList.update ''user.name'' ''GitSexp'' (AList.update ''gc.auto'' ''0'' (config r)))"
  have cfg: "config (setupGitSexpRepo h now r) = ?c"
    by (simp add: setupGitSexpRepo_def Let_def git_setConfig_def git_init_def git_commit_def)
  have ini: "initialized (setupGitSexpRepo h now r)"
    by (simp add: setupGitSexpRepo_def Let_def git_setConfig_def git_init_def git_commit_def)
  have br: "branches (setupGitSexpRepo h now r) \<noteq> []"
    by (simp add: setupGitSexpRepo_def Let_def git_setConfig_def git_init_def git_commit_def
        isRepoEmpty_def git_listBranches_def)
  have fixed: "AList.update ''user.email'' ''git-sexp@localhost''
           (AList.update ''user.name'' ''GitSexp'' (AList.update ''gc.auto'' ''0'' ?c)) = ?c"
    by (rule setup_config_fixed) (simp_all add: AList.update_conv')
  show ?thesis
    using ini br fixed cfg
    by (subst (1) setupGitSexpRepo_def)
       (simp add: Let_def git_setConfig_def git_init_def isRepoEmpty_def git_listBranches_def)
qed

lemma setup_uninitialized:
  "setupGitSexpRepo h now uninitialized_repo =
     \<lparr>initialized = True, HEAD_branch = HISTORY_BRANCH,
      config = [(''gc.auto'', ''0''), (''user.name'', ''GitSexp''),
                (''user.email'', ''git-sexp@localhost'')],
      branches = [(HISTORY_BRANCH, h (bootstrap_record now))],
      objects = (\<lambda>oid. None)(h (bootstrap_record now) \<mapsto> bootstrap_record now)\<rparr>"
  by (simp add: setupGitSexpRepo_def Let_def git_setConfig_def git_init_def git_commit_def
        isRepoEmpty_def git_listBranches_def uninitialized_repo_def bootstrap_record_def)

text \<open>
  C4. \<open>setupGitSexpRepo\<close> is idempotent: a second call changes nothing, from whatever
  state the first call started. From the uninitialized state, the two calls leave exactly
  one record, the bootstrap record, whose snapshot is the Empty id and which has no
  predecessor, and the tip after the second call is the tip after the first.
\<close>

theorem initialize_idempotent:
  "setupGitSexpRepo h now' (setupGitSexpRepo h now r) = setupGitSexpRepo h now r \<and>
   record_ids (setupGitSexpRepo h now' (setupGitSexpRepo h now uninitialized_repo)) =
     {h (bootstrap_record now)} \<and>
   git_readCommit (setupGitSexpRepo h now' (setupGitSexpRepo h now uninitialized_repo))
       (h (bootstrap_record now)) =
     Inr \<lparr>commit_tree = GitSexpEmptyValue_oid, commit_parent = [],
          commit_message = ''Initial commit'', commit_timestamp = now\<rparr> \<and>
   git_resolveRef (setupGitSexpRepo h now uninitialized_repo) HISTORY_BRANCH =
     Inr (h (bootstrap_record now)) \<and>
   git_resolveRef (setupGitSexpRepo h now' (setupGitSexpRepo h now uninitialized_repo))
       HISTORY_BRANCH =
     git_resolveRef (setupGitSexpRepo h now uninitialized_repo) HISTORY_BRANCH"
proof -
  have ids: "record_ids (setupGitSexpRepo h now uninitialized_repo) = {h (bootstrap_record now)}"
    by (auto simp: setup_uninitialized record_ids_def bootstrap_record_def split: if_splits)
  have rd: "git_readCommit (setupGitSexpRepo h now uninitialized_repo) (h (bootstrap_record now)) =
     Inr \<lparr>commit_tree = GitSexpEmptyValue_oid, commit_parent = [],
          commit_message = ''Initial commit'', commit_timestamp = now\<rparr>"
    by (simp add: setup_uninitialized git_readCommit_def bootstrap_record_def)
  have tip: "git_resolveRef (setupGitSexpRepo h now uninitialized_repo) HISTORY_BRANCH =
     Inr (h (bootstrap_record now))"
    by (simp add: setup_uninitialized git_resolveRef_def)
  show ?thesis by (simp only: setup_idem ids rd tip simp_thms)
qed

theorem initialize_idempotent_witness:
  "setupGitSexpRepo toy_hash 2 (setupGitSexpRepo toy_hash 1 uninitialized_repo) =
     setupGitSexpRepo toy_hash 1 uninitialized_repo \<and>
   record_ids (setupGitSexpRepo toy_hash 2 (setupGitSexpRepo toy_hash 1 uninitialized_repo)) =
     {toy_hash (bootstrap_record 1)}"
  using initialize_idempotent [of toy_hash 2 1 uninitialized_repo]
  by blast

section \<open>The lazy tree reader\<close>






lemma lazy_oid_lazy_of_entry: "lazy_oid (lazy_of_entry e) = entry_oid e"
  by (simp add: lazy_of_entry_def)

lemma read_atom:
  assumes "objects r oid = Some (Blob b)" "oid \<noteq> GitSexpEmptyValue_oid"
  shows "readGitSexpExpression r oid = Some (Inr (GitSexpAtom b oid))"
proof -
  have "isGitSexpAtomOid r oid"
    using assms(1) by (simp add: isGitSexpAtomOid_def git_readObject_def isValidGitSexpAtomObject_def)
  moreover have "readGitSexpAtom r oid = Inr (GitSexpAtom b oid)"
    using assms(1) by (simp add: readGitSexpAtom_def git_readObject_def isValidGitSexpAtomObject_def)
  ultimately show ?thesis
    using assms(2) by (subst readGitSexpExpression.simps) simp
qed

lemma readGitSexpConsLazy_cons_tree:
  assumes "objects r oid = Some (Tree (cons_tree a d))"
  shows "\<exists>c e. readGitSexpConsLazy r oid = Inr (GitSexpConsLazy (Some c) (Some e) oid) \<and>
           lazy_oid c = sexp_oid a \<and> lazy_oid e = sexp_oid d"
  using assms
  by (simp add: readGitSexpConsLazy_def git_readObject_def isValidGitSexpConsObject_def
      cons_tree_def Let_def lazy_oid_lazy_of_entry)

lemma read_cons:
  assumes obj: "objects r oid = Some (Tree (cons_tree a d))"
    and ne: "oid \<noteq> GitSexpEmptyValue_oid"
    and car: "readGitSexpExpression r (sexp_oid a) = Some (Inr a)"
    and cdr: "readGitSexpExpression r (sexp_oid d) = Some (Inr d)"
  shows "readGitSexpExpression r oid = Some (Inr (GitSexpCons a d oid))"
proof -
  have atom: "\<not> isGitSexpAtomOid r oid"
    using obj by (simp add: isGitSexpAtomOid_def git_readObject_def isValidGitSexpAtomObject_def)
  from readGitSexpConsLazy_cons_tree [OF obj] obtain c e where
    lz: "readGitSexpConsLazy r oid = Inr (GitSexpConsLazy (Some c) (Some e) oid)"
    and c: "lazy_oid c = sexp_oid a" and e: "lazy_oid e = sexp_oid d"
    by blast
  show ?thesis
    using atom ne lz by (subst readGitSexpExpression.simps) (simp add: c e car cdr)
qed

lemma read_stored:
  "hash_ok h \<Longrightarrow> stored h r v \<Longrightarrow>
   readGitSexpExpression r (sexp_oid (stored_sexp h v)) = Some (Inr (stored_sexp h v))"
proof (induction v)
  case JsEmptySexp
  show ?case by (subst readGitSexpExpression.simps) simp
next
  case (JsAtom s)
  then show ?case by (simp add: read_atom hash_not_empty)
next
  case (JsCons a d)
  then show ?case
    by (simp add: read_cons hash_not_empty cons_tree_not_Nil)
qed

lemma stored_mono: "objects r \<subseteq>\<^sub>m objects r' \<Longrightarrow> stored h r v \<Longrightarrow> stored h r' v"
  by (induction v) (auto simp: map_le_def dom_def)

lemma extends_store_refl: "wf_store h r \<Longrightarrow> extends_store h r r"
  by (simp add: extends_store_def)

lemma extends_store_trans:
  "extends_store h r r1 \<Longrightarrow> extends_store h r1 r2 \<Longrightarrow> extends_store h r r2"
  by (auto simp: extends_store_def intro: map_le_trans)

lemma extends_store_write:
  assumes "hash_ok h" "wf_store h r" "\<forall>c. obj \<noteq> Commit c"
  shows "extends_store h r (r\<lparr>objects := (objects r)(h obj \<mapsto> obj)\<rparr>)"
proof -
  have le: "objects r \<subseteq>\<^sub>m (objects r)(h obj \<mapsto> obj)"
    using assms(1,2) by (auto simp: map_le_def wf_store_def dest: hash_inj)
  have wf: "wf_store h (r\<lparr>objects := (objects r)(h obj \<mapsto> obj)\<rparr>)"
    using assms(2) by (auto simp: wf_store_def)
  have ids: "record_ids (r\<lparr>objects := (objects r)(h obj \<mapsto> obj)\<rparr>) = record_ids r"
  proof -
    have "\<And>c. objects r (h obj) \<noteq> Some (Commit c)"
    proof
      fix c assume "objects r (h obj) = Some (Commit c)"
      with assms(2) have "h (Commit c) = h obj" by (simp add: wf_store_def)
      with assms(1) have "Commit c = obj" by (rule hash_inj)
      with assms(3) show False by blast
    qed
    then show ?thesis using assms(3) by (auto simp: record_ids_def)
  qed
  show ?thesis using le wf ids by (simp add: extends_store_def)
qed

lemma writeGitSexpAtom_extends:
  "hash_ok h \<Longrightarrow> wf_store h r \<Longrightarrow> extends_store h r (snd (writeGitSexpAtom h s r))"
  using extends_store_write [of h r "Blob s"]
  by (simp add: writeGitSexpAtom_def git_writeBlob_def)

lemma writeGitSexpCons_extends:
  "hash_ok h \<Longrightarrow> wf_store h r \<Longrightarrow> extends_store h r (snd (writeGitSexpCons h a d r))"
  using extends_store_write [of h r "Tree (cons_tree a d)"]
  by (simp add: writeGitSexpCons_def git_writeTree_def)

lemma jsSexpToGitSexp_extends:
  "hash_ok h \<Longrightarrow> wf_store h r \<Longrightarrow>
   extends_store h r (snd (jsSexpToGitSexp h v r)) \<and> stored h (snd (jsSexpToGitSexp h v r)) v"
proof (induction v arbitrary: r)
  case JsEmptySexp
  then show ?case by (simp add: extends_store_refl)
next
  case (JsAtom s)
  then show ?case
    using writeGitSexpAtom_extends [of h r s]
    by (simp add: writeGitSexpAtom_def git_writeBlob_def)
next
  case (JsCons a d)
  obtain car r1 where 1: "jsSexpToGitSexp h a r = (car, r1)" by fastforce
  obtain cdr r2 where 2: "jsSexpToGitSexp h d r1 = (cdr, r2)" by fastforce
  from fst_jsSexpToGitSexp [of h a r] 1 have car: "car = stored_sexp h a" by simp
  from fst_jsSexpToGitSexp [of h d r1] 2 have cdr: "cdr = stored_sexp h d" by simp
  from JsCons.IH(1) [of r] JsCons.prems 1
  have e1: "extends_store h r r1" and s1: "stored h r1 a" by simp_all
  then have wf1: "wf_store h r1" by (simp add: extends_store_def)
  from JsCons.IH(2) [of r1] JsCons.prems(1) wf1 2
  have e2: "extends_store h r1 r2" and s2: "stored h r2 d" by simp_all
  then have wf2: "wf_store h r2" by (simp add: extends_store_def)
  let ?r3 = "snd (writeGitSexpCons h car cdr r2)"
  have e3: "extends_store h r2 ?r3"
    using JsCons.prems(1) wf2 by (rule writeGitSexpCons_extends)
  have res: "snd (jsSexpToGitSexp h (JsCons a d) r) = ?r3" by (simp add: 1 2)
  have le12: "objects r1 \<subseteq>\<^sub>m objects r2" using e2 by (simp add: extends_store_def)
  have le23: "objects r2 \<subseteq>\<^sub>m objects ?r3" using e3 by (simp add: extends_store_def)
  have "stored h ?r3 a" using s1 le12 le23 by (blast intro: stored_mono)
  moreover have "stored h ?r3 d" using s2 le23 by (blast intro: stored_mono)
  moreover have "objects ?r3 (h (Tree (cons_tree car cdr))) = Some (Tree (cons_tree car cdr))"
    by (simp add: writeGitSexpCons_def git_writeTree_def)
  ultimately have "stored h ?r3 (JsCons a d)" by (simp add: car cdr)
  moreover have "extends_store h r ?r3"
    using e1 e2 e3 by (blast intro: extends_store_trans)
  ultimately show ?case by (simp only: res simp_thms)
qed

section \<open>Prepending to a stored list\<close>

lemma to_sequence_stored: "to_sequence (stored_sexp h v) = consListToStringArray v"
  by (simp add: to_sequence_def gitSexpToJsSexp_stored_sexp)

lemma consString_eq:
  "consStringOntoGitSexpExpression h x L r =
     (GitSexpCons (GitSexpAtom x (h (Blob x))) L
        (h (Tree (cons_tree (GitSexpAtom x (h (Blob x))) L))),
      r\<lparr>objects := (objects r)(h (Blob x) \<mapsto> Blob x,
          h (Tree (cons_tree (GitSexpAtom x (h (Blob x))) L)) \<mapsto>
            Tree (cons_tree (GitSexpAtom x (h (Blob x))) L))\<rparr>)"
  by (simp add: consStringOntoGitSexpExpression_def writeGitSexpAtom_def git_writeBlob_def
      writeGitSexpCons_def git_writeTree_def)

lemma consString_as_encode:
  "consStringOntoGitSexpExpression h x (stored_sexp h v) r1 =
     (stored_sexp h (JsCons (JsAtom x) v),
      snd (writeGitSexpCons h (GitSexpAtom x (h (Blob x))) (stored_sexp h v)
             (snd (writeGitSexpAtom h x r1))))"
  by (simp add: consStringOntoGitSexpExpression_def writeGitSexpAtom_def git_writeBlob_def
      writeGitSexpCons_def git_writeTree_def)

text \<open>
  C7. Let \<open>L\<close> be the stored encoding of a value \<open>v\<close> in a consistent store. Prepending
  \<open>x\<close> to \<open>L\<close> writes one blob, for the atom \<open>x\<close>, and one tree, for the cons, whose
  cdr entry is the root id of \<open>L\<close>, and nothing else. The root id of the result differs
  from that of \<open>L\<close>; the sequence of the result is \<open>x\<close> followed by the sequence of \<open>L\<close>;
  every object of the store is as it was, and \<open>L\<close> read from the store after the call is
  \<open>L\<close>, as before the call.
\<close>

theorem prepend_frame:
  assumes h: "hash_ok h" and wf: "wf_store h r" and st: "stored h r v"
  shows "consStringOntoGitSexpExpression h x (stored_sexp h v) r =
           (GitSexpCons (GitSexpAtom x (h (Blob x))) (stored_sexp h v)
              (h (Tree (cons_tree (GitSexpAtom x (h (Blob x))) (stored_sexp h v)))),
            r\<lparr>objects := (objects r)(h (Blob x) \<mapsto> Blob x,
                h (Tree (cons_tree (GitSexpAtom x (h (Blob x))) (stored_sexp h v))) \<mapsto>
                  Tree (cons_tree (GitSexpAtom x (h (Blob x))) (stored_sexp h v)))\<rparr>) \<and>
         map entry_oid (cons_tree (GitSexpAtom x (h (Blob x))) (stored_sexp h v)) =
           [h (Blob x), sexp_oid (stored_sexp h v)] \<and>
         sexp_oid (fst (consStringOntoGitSexpExpression h x (stored_sexp h v) r)) \<noteq>
           sexp_oid (stored_sexp h v) \<and>
         to_sequence (fst (consStringOntoGitSexpExpression h x (stored_sexp h v) r)) =
           (case to_sequence (stored_sexp h v) of
              Inl e \<Rightarrow> Inl e
            | Inr items \<Rightarrow> Inr (x # items)) \<and>
         objects r \<subseteq>\<^sub>m objects (snd (consStringOntoGitSexpExpression h x (stored_sexp h v) r)) \<and>
         readGitSexpExpression r (sexp_oid (stored_sexp h v)) = Some (Inr (stored_sexp h v)) \<and>
         readGitSexpExpression (snd (consStringOntoGitSexpExpression h x (stored_sexp h v) r))
             (sexp_oid (stored_sexp h v)) = Some (Inr (stored_sexp h v)) \<and>
         readGitSexpExpression (snd (consStringOntoGitSexpExpression h x (stored_sexp h v) r))
             (sexp_oid (fst (consStringOntoGitSexpExpression h x (stored_sexp h v) r))) =
           Some (Inr (fst (consStringOntoGitSexpExpression h x (stored_sexp h v) r)))"
proof -
  let ?L = "stored_sexp h v"
  let ?res = "fst (consStringOntoGitSexpExpression h x ?L r)"
  let ?r' = "snd (consStringOntoGitSexpExpression h x ?L r)"
  let ?r1 = "snd (writeGitSexpAtom h x r)"
  have res: "?res = stored_sexp h (JsCons (JsAtom x) v)"
    by (simp add: consString_as_encode)
  have r': "?r' = snd (writeGitSexpCons h (GitSexpAtom x (h (Blob x))) ?L ?r1)"
    by (simp add: consString_as_encode)
  have e1: "extends_store h r ?r1" using h wf by (rule writeGitSexpAtom_extends)
  then have wf1: "wf_store h ?r1" by (simp add: extends_store_def)
  have e2: "extends_store h ?r1 ?r'"
    unfolding r' using h wf1 by (rule writeGitSexpCons_extends)
  have ext: "extends_store h r ?r'" using e1 e2 by (rule extends_store_trans)
  then have le: "objects r \<subseteq>\<^sub>m objects ?r'" by (simp add: extends_store_def)
  have 1: "map entry_oid (cons_tree (GitSexpAtom x (h (Blob x))) ?L) = [h (Blob x), sexp_oid ?L]"
    by (simp add: cons_tree_def Let_def)
  have 2: "sexp_oid ?res \<noteq> sexp_oid ?L"
  proof
    assume "sexp_oid ?res = sexp_oid ?L"
    then have "sexp_oid (stored_sexp h (JsCons (JsAtom x) v)) = sexp_oid (stored_sexp h v)"
      by (simp only: res)
    with h have "JsCons (JsAtom x) v = v" by (rule stored_sexp_oid_inj)
    then have "size (JsCons (JsAtom x) v) = size v" by simp
    then show False by simp
  qed
  have 3: "to_sequence ?res =
      (case to_sequence ?L of Inl e \<Rightarrow> Inl e | Inr items \<Rightarrow> Inr (x # items))"
    by (simp only: res to_sequence_stored) simp
  have 4: "readGitSexpExpression r (sexp_oid ?L) = Some (Inr ?L)"
    using h st by (rule read_stored)
  have st': "stored h ?r' v" using le st by (rule stored_mono)
  have 5: "readGitSexpExpression ?r' (sexp_oid ?L) = Some (Inr ?L)"
    using h st' by (rule read_stored)
  have "h (Blob x) \<noteq> h (Tree (cons_tree (GitSexpAtom x (h (Blob x))) ?L))"
    using h by (auto dest: hash_inj)
  then have "stored h ?r' (JsCons (JsAtom x) v)"
    using st' by (simp add: consString_eq)
  with h have "readGitSexpExpression ?r' (sexp_oid (stored_sexp h (JsCons (JsAtom x) v))) =
      Some (Inr (stored_sexp h (JsCons (JsAtom x) v)))"
    by (rule read_stored)
  then have 6: "readGitSexpExpression ?r' (sexp_oid ?res) = Some (Inr ?res)"
    by (simp only: res)
  show ?thesis
    using 1 2 3 4 5 6 le consString_eq [of h x ?L r] by (intro conjI) 
qed

theorem prepend_frame_witness:
  "to_sequence (stored_sexp toy_hash (cons_chain [''A'', ''B''] JsEmptySexp)) =
     Inr [''A'', ''B''] \<and>
   to_sequence (fst (consStringOntoGitSexpExpression toy_hash ''X''
        (stored_sexp toy_hash (cons_chain [''A'', ''B''] JsEmptySexp))
        (snd (jsSexpToGitSexp toy_hash (cons_chain [''A'', ''B''] JsEmptySexp)
           uninitialized_repo)))) =
     Inr [''X'', ''A'', ''B''] \<and>
   readGitSexpExpression (snd (consStringOntoGitSexpExpression toy_hash ''X''
        (stored_sexp toy_hash (cons_chain [''A'', ''B''] JsEmptySexp))
        (snd (jsSexpToGitSexp toy_hash (cons_chain [''A'', ''B''] JsEmptySexp)
           uninitialized_repo))))
       (sexp_oid (stored_sexp toy_hash (cons_chain [''A'', ''B''] JsEmptySexp))) =
     Some (Inr (stored_sexp toy_hash (cons_chain [''A'', ''B''] JsEmptySexp)))"
proof -
  let ?v = "cons_chain [''A'', ''B''] JsEmptySexp"
  let ?r = "snd (jsSexpToGitSexp toy_hash ?v uninitialized_repo)"
  have wf0: "wf_store toy_hash uninitialized_repo"
    by (simp add: wf_store_def uninitialized_repo_def)
  from jsSexpToGitSexp_extends [OF toy_hash_ok wf0, of ?v]
  have wf: "wf_store toy_hash ?r" and st: "stored toy_hash ?r ?v"
    by (simp_all add: extends_store_def)
  let ?L = "stored_sexp toy_hash ?v"
  let ?res = "consStringOntoGitSexpExpression toy_hash ''X'' ?L ?r"
  have seq: "to_sequence ?L = Inr [''A'', ''B'']"
    by (simp only: to_sequence_stored consListToStringArray_chain_empty)
  note frame = prepend_frame [OF toy_hash_ok wf st, of "''X''"]
  from frame have "to_sequence (fst ?res) =
      (case to_sequence ?L of Inl e \<Rightarrow> Inl e | Inr items \<Rightarrow> Inr (''X'' # items))"
    by blast
  then have 1: "to_sequence (fst ?res) = Inr [''X'', ''A'', ''B'']"
    by (simp only: seq sum.case)
  from frame have 2: "readGitSexpExpression (snd ?res) (sexp_oid ?L) = Some (Inr ?L)"
    by blast
  from seq 1 2 show ?thesis by (intro conjI)
qed

section \<open>The history manager: appending\<close>

lemma git_readCommit_mono:
  "objects r \<subseteq>\<^sub>m objects r' \<Longrightarrow> git_readCommit r oid = Inr c \<Longrightarrow> git_readCommit r' oid = Inr c"
  by (auto simp: git_readCommit_def map_le_def dom_def split: option.splits GitObject.splits)

lemma record_chain_mono:
  "objects r \<subseteq>\<^sub>m objects r' \<Longrightarrow> record_chain r cs \<Longrightarrow> record_chain r' cs"
proof (induction r cs rule: record_chain.induct)
  case (1 r)
  then show ?case by simp
next
  case (2 r oid)
  then show ?case by (auto split: sum.splits dest: git_readCommit_mono)
next
  case (3 r oid p rest)
  from "3.prems" obtain c where c: "git_readCommit r oid = Inr c"
    and par: "commit_parent c = [p]" and rest: "record_chain r (p # rest)"
    by (auto split: sum.splits)
  from git_readCommit_mono [OF "3.prems"(1) c] have "git_readCommit r' oid = Inr c" .
  moreover from "3.IH" [OF c "3.prems"(1) rest] have "record_chain r' (p # rest)" .
  ultimately show ?case using par by simp
qed

lemma record_snapshot_mono:
  "objects r \<subseteq>\<^sub>m objects r' \<Longrightarrow> record_snapshot r oid = Some t \<Longrightarrow> record_snapshot r' oid = Some t"
  by (auto simp: record_snapshot_def split: sum.splits dest: git_readCommit_mono)

lemma record_chain_parent:
  "record_chain r cs \<Longrightarrow> distinct cs \<Longrightarrow> x \<in> set cs \<Longrightarrow> git_readCommit r x = Inr c \<Longrightarrow>
   p \<in> set (commit_parent c) \<Longrightarrow> p \<in> set cs \<and> p \<noteq> hd cs"
proof (induction r cs rule: record_chain.induct)
  case (1 r)
  then show ?case by simp
next
  case (2 r oid)
  then show ?case by (auto split: sum.splits)
next
  case (3 r oid q rest)
  from "3.prems"(1) obtain c' where c': "git_readCommit r oid = Inr c'"
    and par: "commit_parent c' = [q]" and rest: "record_chain r (q # rest)"
    by (auto split: sum.splits)
  show ?case
  proof (cases "x = oid")
    case True
    with c' "3.prems"(4) have "c = c'" by simp
    with par "3.prems"(5) have "p = q" by simp
    with "3.prems"(2) show ?thesis by auto
  next
    case False
    with "3.prems"(3) have x: "x \<in> set (q # rest)" by simp
    from "3.prems"(2) have d: "distinct (q # rest)" by simp
    from "3.IH" [OF c' rest d x "3.prems"(4,5)] have "p \<in> set (q # rest)" by blast
    with "3.prems"(2) show ?thesis by auto
  qed
qed

lemma wf_store_uninitialized: "wf_store h uninitialized_repo"
  by (simp add: wf_store_def uninitialized_repo_def)

lemma history_inv_setup:
  "history_inv h (setupGitSexpRepo h now uninitialized_repo) [h (bootstrap_record now)]"
proof -
  have "record_ids (setupGitSexpRepo h now uninitialized_repo) = {h (bootstrap_record now)}"
    by (auto simp: setup_uninitialized record_ids_def bootstrap_record_def split: if_splits)
  then show ?thesis
    by (simp add: history_inv_def)
       (simp add: setup_uninitialized wf_store_def git_resolveRef_def git_readCommit_def
          bootstrap_record_def)
qed

lemma history_inv_extends:
  assumes "history_inv h r cs" "extends_store h r r'"
  shows "history_inv h r' cs"
proof -
  from assms(2) have le: "objects r \<subseteq>\<^sub>m objects r'" by (simp add: extends_store_def)
  from assms(1) have "record_chain r cs" by (simp add: history_inv_def)
  with le have "record_chain r' cs" by (rule record_chain_mono)
  with assms show ?thesis
    by (simp add: history_inv_def extends_store_def git_resolveRef_def)
qed

lemma history_inv_append:
  assumes h: "hash_ok h" and inv: "history_inv h r cs"
  shows "\<exists>r' new. updateBranchHead h now L r = Inr r' \<and> history_inv h r' (new # cs) \<and>
           record_snapshot r' new = Some (sexp_oid L) \<and> objects r \<subseteq>\<^sub>m objects r'"
proof -
  let ?c = "\<lparr>commit_tree = sexp_oid L, commit_parent = [hd cs],
             commit_message = ''Append messages'', commit_timestamp = now\<rparr>"
  let ?new = "h (Commit ?c)"
  let ?r' = "r\<lparr>objects := (objects r)(?new \<mapsto> Commit ?c),
               branches := AList.update HISTORY_BRANCH ?new (branches r)\<rparr>"
  from inv have wf: "wf_store h r" and head: "HEAD_branch r = HISTORY_BRANCH"
    and ne: "cs \<noteq> []" and tip: "git_resolveRef r HISTORY_BRANCH = Inr (hd cs)"
    and chain: "record_chain r cs" and dist: "distinct cs" and ids: "record_ids r = set cs"
    by (simp_all add: history_inv_def)
  have upd: "updateBranchHead h now L r = Inr ?r'"
    using tip head by (simp add: updateBranchHead_def git_commit_def Let_def)
  have stored_new: "\<And>obj. objects r ?new = Some obj \<Longrightarrow> obj = Commit ?c"
  proof -
    fix obj assume "objects r ?new = Some obj"
    with wf have "h obj = h (Commit ?c)" by (simp add: wf_store_def)
    with h show "obj = Commit ?c" by (rule hash_inj)
  qed
  have fresh: "?new \<notin> set cs"
  proof
    assume mem: "?new \<in> set cs"
    with ids obtain c where "objects r ?new = Some (Commit c)" by (auto simp: record_ids_def)
    with stored_new have "objects r ?new = Some (Commit ?c)" by auto
    then have rd: "git_readCommit r ?new = Inr ?c" by (simp add: git_readCommit_def)
    from record_chain_parent [OF chain dist mem rd, of "hd cs"] show False by simp
  qed
  have le: "objects r \<subseteq>\<^sub>m objects ?r'"
    using stored_new by (auto simp: map_le_def)
  have wf': "wf_store h ?r'" using wf by (auto simp: wf_store_def)
  have tip': "git_resolveRef ?r' HISTORY_BRANCH = Inr ?new"
    by (simp add: git_resolveRef_def AList.update_conv')
  have rd': "git_readCommit ?r' ?new = Inr ?c" by (simp add: git_readCommit_def)
  from le chain have chain0: "record_chain ?r' cs" by (rule record_chain_mono)
  from ne obtain c0 rest where cs: "cs = c0 # rest" by (cases cs) auto
  have chain': "record_chain ?r' (?new # cs)"
    using chain0 rd' by (simp add: cs)
  have ids': "record_ids ?r' = set (?new # cs)"
    using ids by (auto simp: record_ids_def)
  have snap: "record_snapshot ?r' ?new = Some (sexp_oid L)"
    by (simp add: record_snapshot_def rd')
  have "history_inv h ?r' (?new # cs)"
    using wf' head tip' chain' dist fresh ids' by (simp add: history_inv_def)
  with upd snap le show ?thesis by blast
qed

lemma append_sequence_inv:
  "hash_ok h \<Longrightarrow> history_inv h r cs \<Longrightarrow>
   \<exists>r' cs'. append_sequence h steps r = Inr r' \<and> history_inv h r' (cs' @ cs) \<and>
     map (record_snapshot r') cs' = map Some (rev (snapshot_ids h steps)) \<and>
     objects r \<subseteq>\<^sub>m objects r' \<and>
     (steps \<noteq> [] \<longrightarrow> stored h r' (snd (last steps)))"
proof (induction steps arbitrary: r cs)
  case Nil
  then show ?case by (simp add: snapshot_ids_def)
next
  case (Cons step steps)
  obtain L r1 where enc: "jsSexpToGitSexp h (snd step) r = (L, r1)" by fastforce
  from fst_jsSexpToGitSexp [of h "snd step" r] enc have L: "L = stored_sexp h (snd step)" by simp
  from Cons.prems have wf: "wf_store h r" by (simp add: history_inv_def)
  from jsSexpToGitSexp_extends [OF Cons.prems(1) wf, of "snd step"] enc
  have ext: "extends_store h r r1" and st1: "stored h r1 (snd step)" by simp_all
  from Cons.prems(2) ext have inv1: "history_inv h r1 cs" by (rule history_inv_extends)
  from history_inv_append [OF Cons.prems(1) inv1, of "fst step" L]
  obtain r2 new where upd: "updateBranchHead h (fst step) L r1 = Inr r2"
    and inv2: "history_inv h r2 (new # cs)"
    and snap2: "record_snapshot r2 new = Some (sexp_oid L)"
    and le12: "objects r1 \<subseteq>\<^sub>m objects r2"
    by blast
  from Cons.IH [OF Cons.prems(1) inv2]
  obtain r' cs' where run: "append_sequence h steps r2 = Inr r'"
    and inv': "history_inv h r' (cs' @ new # cs)"
    and snaps: "map (record_snapshot r') cs' = map Some (rev (snapshot_ids h steps))"
    and le2: "objects r2 \<subseteq>\<^sub>m objects r'"
    and last: "steps \<noteq> [] \<longrightarrow> stored h r' (snd (last steps))"
    by blast
  have run': "append_sequence h (step # steps) r = Inr r'"
    by (simp add: enc upd run)
  from ext have le01: "objects r \<subseteq>\<^sub>m objects r1" by (simp add: extends_store_def)
  have le: "objects r \<subseteq>\<^sub>m objects r'"
    using le01 le12 le2 by (blast intro: map_le_trans)
  from snap2 le2 have "record_snapshot r' new = Some (sexp_oid L)"
    by (blast intro: record_snapshot_mono)
  with snaps have snaps': "map (record_snapshot r') (cs' @ [new]) =
      map Some (rev (snapshot_ids h (step # steps)))"
    by (simp add: snapshot_ids_def L)
  have st': "stored h r' (snd step)"
    using st1 le12 le2 by (blast intro: stored_mono map_le_trans)
  have last': "stored h r' (snd (last (step # steps)))"
    using last st' by simp
  from inv' have "history_inv h r' ((cs' @ [new]) @ cs)" by simp
  with run' snaps' le last' show ?case by blast
qed

text \<open>
  C3. Start from the history that \<open>setupGitSexpRepo\<close> initialises and run \<open>n\<close> sequential
  appends of stored lists. All of them succeed. In the final repository the tip starts a
  chain of exactly \<open>n + 1\<close> distinct records, which are all the records of the store; each
  record has exactly one predecessor, the next of the chain, but the bootstrap record,
  which is last and has none; the snapshots along the chain are the root ids of the
  appended lists, latest first, then the Empty id; and \<open>loadHistoryGitSexpList\<close> returns
  the list appended last (the empty expression when \<open>n = 0\<close>).
\<close>

theorem append_monotonic:
  assumes "hash_ok h"
  shows "\<exists>rn cs. append_sequence h steps (setupGitSexpRepo h now uninitialized_repo) = Inr rn \<and>
     git_resolveRef rn HISTORY_BRANCH = Inr (hd cs) \<and>
     record_chain rn cs \<and> distinct cs \<and> record_ids rn = set cs \<and>
     length cs = length steps + 1 \<and>
     map (record_snapshot rn) cs =
       map Some (rev (snapshot_ids h steps) @ [GitSexpEmptyValue_oid]) \<and>
     loadHistoryGitSexpList rn =
       Some (Inr (stored_sexp h (last (JsEmptySexp # map snd steps))))"
proof -
  let ?r0 = "setupGitSexpRepo h now uninitialized_repo"
  let ?b = "h (bootstrap_record now)"
  have inv0: "history_inv h ?r0 [?b]" by (rule history_inv_setup)
  have snap0: "record_snapshot ?r0 ?b = Some GitSexpEmptyValue_oid"
    by (simp add: record_snapshot_def setup_uninitialized git_readCommit_def bootstrap_record_def)
  from append_sequence_inv [OF assms inv0, of steps]
  obtain rn cs' where run: "append_sequence h steps ?r0 = Inr rn"
    and inv: "history_inv h rn (cs' @ [?b])"
    and snaps: "map (record_snapshot rn) cs' = map Some (rev (snapshot_ids h steps))"
    and le: "objects ?r0 \<subseteq>\<^sub>m objects rn"
    and last: "steps \<noteq> [] \<longrightarrow> stored h rn (snd (last steps))"
    by blast
  let ?cs = "cs' @ [?b]"
  from snap0 le have snapb: "record_snapshot rn ?b = Some GitSexpEmptyValue_oid"
    by (rule record_snapshot_mono [rotated])
  from snaps snapb have snaps': "map (record_snapshot rn) ?cs =
      map Some (rev (snapshot_ids h steps) @ [GitSexpEmptyValue_oid])"
    by simp
  from snaps have "length cs' = length steps"
    using length_map [of "record_snapshot rn" cs'] by (simp add: snapshot_ids_def)
  then have len: "length ?cs = length steps + 1" by simp
  from inv have tip: "git_resolveRef rn HISTORY_BRANCH = Inr (hd ?cs)"
    and chain: "record_chain rn ?cs" and dist: "distinct ?cs" and ids: "record_ids rn = set ?cs"
    by (simp_all add: history_inv_def)
  have tip_snap: "record_snapshot rn (hd ?cs) =
      Some (sexp_oid (stored_sexp h (last (JsEmptySexp # map snd steps))))"
  proof (cases steps rule: rev_cases)
    case Nil
    with snaps have "cs' = []" by (simp add: snapshot_ids_def)
    with snapb Nil show ?thesis by simp
  next
    case (snoc steps' step)
    with snaps obtain c cs'' where cs': "cs' = c # cs''"
      by (cases cs') (auto simp: snapshot_ids_def)
    with snaps snoc have "record_snapshot rn c = Some (sexp_oid (stored_sexp h (snd step)))"
      by (simp add: snapshot_ids_def)
    with cs' snoc show ?thesis by (simp add: last_map)
  qed
  have st: "stored h rn (last (JsEmptySexp # map snd steps))"
  proof (cases "steps = []")
    case True
    then show ?thesis by simp
  next
    case False
    with last show ?thesis by (simp add: last_map)
  qed
  from assms st have rd: "readGitSexpExpression rn
        (sexp_oid (stored_sexp h (last (JsEmptySexp # map snd steps)))) =
      Some (Inr (stored_sexp h (last (JsEmptySexp # map snd steps))))"
    by (rule read_stored)
  have load: "loadHistoryGitSexpList rn =
      Some (Inr (stored_sexp h (last (JsEmptySexp # map snd steps))))"
    using tip tip_snap rd
    by (auto simp: loadHistoryGitSexpList_def record_snapshot_def split: sum.splits)
  from run tip chain dist ids len snaps' load show ?thesis by blast
qed

theorem append_monotonic_witness:
  "hash_ok toy_hash \<and>
   (\<exists>rn cs. append_sequence toy_hash
        [(1, cons_chain [''A''] JsEmptySexp), (2, cons_chain [''B'', ''A''] JsEmptySexp)]
        (setupGitSexpRepo toy_hash 0 uninitialized_repo) = Inr rn \<and>
      git_resolveRef rn HISTORY_BRANCH = Inr (hd cs) \<and> record_chain rn cs \<and>
      length cs = 3 \<and>
      loadHistoryGitSexpList rn =
        Some (Inr (stored_sexp toy_hash (cons_chain [''B'', ''A''] JsEmptySexp))))"
proof -
  from append_monotonic [OF toy_hash_ok,
      of "[(1, cons_chain [''A''] JsEmptySexp), (2, cons_chain [''B'', ''A''] JsEmptySexp)]" 0]
  obtain rn cs where
    "append_sequence toy_hash
        [(1, cons_chain [''A''] JsEmptySexp), (2, cons_chain [''B'', ''A''] JsEmptySexp)]
        (setupGitSexpRepo toy_hash 0 uninitialized_repo) = Inr rn"
    "git_resolveRef rn HISTORY_BRANCH = Inr (hd cs)" "record_chain rn cs"
    "length cs = length [(1::nat, cons_chain [''A''] JsEmptySexp),
        (2, cons_chain [''B'', ''A''] JsEmptySexp)] + 1"
    "loadHistoryGitSexpList rn =
        Some (Inr (stored_sexp toy_hash (last (JsEmptySexp #
          map snd [(1::nat, cons_chain [''A''] JsEmptySexp),
             (2, cons_chain [''B'', ''A''] JsEmptySexp)]))))"
    by blast
  then have "append_sequence toy_hash
        [(1, cons_chain [''A''] JsEmptySexp), (2, cons_chain [''B'', ''A''] JsEmptySexp)]
        (setupGitSexpRepo toy_hash 0 uninitialized_repo) = Inr rn \<and>
      git_resolveRef rn HISTORY_BRANCH = Inr (hd cs) \<and> record_chain rn cs \<and>
      length cs = 3 \<and>
      loadHistoryGitSexpList rn =
        Some (Inr (stored_sexp toy_hash (cons_chain [''B'', ''A''] JsEmptySexp)))"
    by (simp del: cons_chain_simps append_sequence.simps)
  then show ?thesis using toy_hash_ok by blast
qed

section \<open>Termination of the recursive read\<close>

lemma find_in_set: "find P xs = Some x \<Longrightarrow> x \<in> set xs"
  by (auto simp: find_Some_iff)

lemma readGitSexpConsLazy_Inr:
  assumes "readGitSexpConsLazy r oid = Inr lz"
  shows "\<exists>c e. lz = GitSexpConsLazy (Some c) (Some e) oid \<and>
           lazy_oid c \<in> set (store_children r oid) \<and> lazy_oid e \<in> set (store_children r oid)"
proof -
  from assms obtain obj where obj: "objects r oid = Some obj"
    by (auto simp: readGitSexpConsLazy_def git_readObject_def split: option.splits)
  show ?thesis
  proof (cases obj)
    case (Blob b)
    with assms obj show ?thesis
      by (auto simp: readGitSexpConsLazy_def git_readObject_def isValidGitSexpConsObject_def
          split: sum.splits if_splits)
  next
    case (Commit c)
    with assms obj show ?thesis
      by (auto simp: readGitSexpConsLazy_def git_readObject_def isValidGitSexpConsObject_def
          split: sum.splits if_splits)
  next
    case (Tree es)
    with assms obj obtain ce de where
      ce: "find (\<lambda>entry. path entry = ''car'') es = Some ce"
      and de: "find (\<lambda>entry. path entry = ''cdr'') es = Some de"
      and lz: "lz = GitSexpConsLazy (Some (lazy_of_entry ce)) (Some (lazy_of_entry de)) oid"
      by (auto simp: readGitSexpConsLazy_def git_readObject_def
          split: sum.splits if_splits option.splits)
    from ce de have "ce \<in> set es" "de \<in> set es" by (auto dest: find_in_set)
    then have "entry_oid ce \<in> set (store_children r oid)" "entry_oid de \<in> set (store_children r oid)"
      by (simp_all add: store_children_def obj Tree)
    with lz show ?thesis by (simp add: lazy_oid_lazy_of_entry)
  qed
qed

lemma read_step:
  assumes "\<And>c. c \<in> set (store_children r oid) \<Longrightarrow> \<exists>res. readGitSexpExpression r c = Some res"
  shows "\<exists>res. readGitSexpExpression r oid = Some res"
proof (cases "oid = GitSexpEmptyValue_oid \<or> isGitSexpAtomOid r oid")
  case True
  then show ?thesis by (subst readGitSexpExpression.simps) auto
next
  case False
  show ?thesis
  proof (cases "readGitSexpConsLazy r oid")
    case (Inl e)
    with False show ?thesis by (subst readGitSexpExpression.simps) simp
  next
    case (Inr lz)
    from readGitSexpConsLazy_Inr [OF this] obtain c e where
      lz: "lz = GitSexpConsLazy (Some c) (Some e) oid"
      and c: "lazy_oid c \<in> set (store_children r oid)"
      and e: "lazy_oid e \<in> set (store_children r oid)"
      by blast
    from assms [OF c] obtain carResult where
      car: "readGitSexpExpression r (lazy_oid c) = Some carResult" by blast
    from assms [OF e] obtain cdrResult where
      cdr: "readGitSexpExpression r (lazy_oid e) = Some cdrResult" by blast
    show ?thesis
      using False Inr
      by (subst readGitSexpExpression.simps) (simp add: lz car cdr split: sum.splits)
  qed
qed

text \<open>
  C9. When the object graph reachable from an id is a finite directed acyclic graph, the
  recursive read of the id returns: its result is an expression or an error, never a read
  that goes on for ever.
\<close>

theorem read_terminates:
  assumes "finite_dag r oid"
  shows "\<exists>res. readGitSexpExpression r oid = Some res"
proof -
  let ?A = "reachable r oid"
  let ?R = "{(c, p). p \<in> ?A \<and> (p, c) \<in> store_edges r}"
  from assms have fin: "finite ?A"
    and nocycle: "\<And>x. x \<in> ?A \<Longrightarrow> (x, x) \<notin> (store_edges r)\<^sup>+"
    by (simp_all add: finite_dag_def)
  have closed: "\<And>p c. p \<in> ?A \<Longrightarrow> (p, c) \<in> store_edges r \<Longrightarrow> c \<in> ?A"
    by (auto simp: reachable_def intro: rtrancl_into_rtrancl)
  have "?R \<subseteq> ?A \<times> ?A" using closed by auto
  with fin have finR: "finite ?R" by (blast intro: finite_subset)
  have sub: "?R \<subseteq> (store_edges r)\<inverse>" by auto
  have acyc: "acyclic ?R"
  proof (rule acyclicI, rule allI, rule notI)
    fix x assume cyc: "(x, x) \<in> ?R\<^sup>+"
    then have "x \<in> ?A" by (cases rule: tranclE) auto
    moreover from cyc sub have "(x, x) \<in> ((store_edges r)\<inverse>)\<^sup>+"
      by (blast intro: trancl_mono)
    then have "(x, x) \<in> (store_edges r)\<^sup>+" by (simp add: trancl_converse)
    ultimately show False using nocycle by blast
  qed
  from finR acyc have wfR: "wf ?R" by (rule finite_acyclic_wf)
  have "p \<in> ?A \<longrightarrow> (\<exists>res. readGitSexpExpression r p = Some res)" for p
  proof (induction p rule: wf_induct_rule [OF wfR])
    case (1 p)
    show ?case
    proof
      assume p: "p \<in> ?A"
      show "\<exists>res. readGitSexpExpression r p = Some res"
      proof (rule read_step)
        fix c assume "c \<in> set (store_children r p)"
        then have edge: "(p, c) \<in> store_edges r" by (simp add: store_edges_def)
        with p have "(c, p) \<in> ?R" and "c \<in> ?A" using closed by auto
        with "1.IH" show "\<exists>res. readGitSexpExpression r c = Some res" by blast
      qed
    qed
  qed
  moreover have "oid \<in> ?A" by (simp add: reachable_def)
  ultimately show ?thesis by blast
qed

lemma rank_no_cycle:
  assumes "\<And>p c. (p, c) \<in> E \<Longrightarrow> f c < (f p :: nat)"
  shows "(x, x) \<notin> E\<^sup>+"
proof
  assume "(x, x) \<in> E\<^sup>+"
  moreover have "(a, b) \<in> E\<^sup>+ \<Longrightarrow> f b < f a" for a b
    by (induction rule: trancl_induct) (auto dest: assms)
  ultimately show False by fastforce
qed

theorem read_terminates_witness:
  "finite_dag cons_repo ''c0'' \<and>
   readGitSexpExpression cons_repo ''c0'' =
     Some (Inr (GitSexpCons (GitSexpAtom ''x'' ''a0'') GitSexpEmpty ''c0''))"
proof -
  have edges: "store_edges cons_repo = {(''c0'', ''a0''), (''c0'', GitSexpEmptyValue_oid)}"
    by (auto simp: store_edges_def store_children_def cons_repo_def split: if_splits)
  have fin: "finite (reachable cons_repo ''c0'')"
    by (simp add: reachable_def edges)
  have "(x, x) \<notin> (store_edges cons_repo)\<^sup>+" for x
  proof (rule rank_no_cycle)
    fix p c assume "(p, c) \<in> store_edges cons_repo"
    then show "(if c = ''c0'' then 1 else 0) < (if p = ''c0'' then 1 else (0::nat))"
      by (auto simp: edges GitSexpEmptyValue_oid_def)
  qed
  with fin have dag: "finite_dag cons_repo ''c0''" by (simp add: finite_dag_def)
  have "readGitSexpExpression cons_repo ''c0'' =
     Some (Inr (GitSexpCons (GitSexpAtom ''x'' ''a0'') GitSexpEmpty ''c0'')) \<or>
     readGitSexpExpression cons_repo ''c0'' = None"
    by (simp add: readGitSexpExpression.simps cons_repo_def GitSexpEmptyValue_oid_def
        isGitSexpAtomOid_def git_readObject_def isValidGitSexpAtomObject_def
        readGitSexpConsLazy_def isValidGitSexpConsObject_def lazy_of_entry_def
        readGitSexpAtom_def)
  with read_terminates [OF dag] dag show ?thesis by auto
qed

end
